theory Spec2Isabelle
  imports Main
begin


section \<open>Diagnostic messages and their flattening\<close>

text \<open>
  \<^verbatim>\<open>ts.DiagnosticMessageChain\<close> is a linked chain of messages: each link carries a
  text and an optional \<^verbatim>\<open>next\<close> link. A diagnostic's \<^verbatim>\<open>messageText\<close> is either a
  plain string or such a chain. \<open>Chain text nxt\<close> is the link with
  \<^verbatim>\<open>messageText = text\<close> and \<^verbatim>\<open>next = nxt\<close>; an absent \<^verbatim>\<open>next\<close> is \<open>None\<close>.
\<close>

datatype DiagnosticMessageChain =
  Chain string "DiagnosticMessageChain option"

datatype MessageText = Flat string | Chained DiagnosticMessageChain

text \<open>The inner loop \<^verbatim>\<open>for (let i = 0; i < indent; i++) result += "  "\<close>.\<close>

function indent_loop :: "nat \<Rightarrow> nat \<Rightarrow> string \<Rightarrow> string" where
  "indent_loop i indent result =
     (if i < indent then indent_loop (Suc i) indent (result @ ''  '') else result)"
  by pat_completeness auto
termination
  by (relation "measure (\<lambda>(i, indent, result). indent - i)") auto

declare indent_loop.simps [simp del]

text \<open>
  The outer loop \<^verbatim>\<open>while (diagnosticChain)\<close>, with the loop variables
  \<^verbatim>\<open>diagnosticChain\<close>, \<^verbatim>\<open>indent\<close> and \<^verbatim>\<open>result\<close> passed along.
\<close>

fun chain_loop :: "string \<Rightarrow> DiagnosticMessageChain option \<Rightarrow> nat \<Rightarrow> string \<Rightarrow> string" where
  "chain_loop newLine None indent result = result"
| "chain_loop newLine (Some (Chain text nxt)) indent result =
     (let result1 = (if indent \<noteq> 0 then indent_loop 0 indent (result @ newLine) else result);
          result2 = result1 @ text
      in chain_loop newLine nxt (indent + 1) result2)"

fun flattenDiagnosticMessageText :: "MessageText \<Rightarrow> string \<Rightarrow> string" where
  "flattenDiagnosticMessageText (Flat s) newLine = s"
| "flattenDiagnosticMessageText (Chained c) newLine = chain_loop newLine (Some c) 0 []"


section \<open>Severities and markers\<close>

text \<open>\<^verbatim>\<open>monaco.MarkerSeverity\<close>.\<close>

datatype MarkerSeverity = Hint | Info | Warning | Error

text \<open>
  The enum \<^verbatim>\<open>ts.DiagnosticCategory\<close> is declared in \<^verbatim>\<open>lgService\<close>, which is not among
  the sources; \<^verbatim>\<open>toSeverity\<close> takes its four members as a parameter.
\<close>

record DiagnosticCategory =
  Category_Warning :: int
  Category_Error :: int
  Category_Suggestion :: int
  Category_Message :: int

text \<open>
  The numbering of the enum of the same name in TypeScript, from which these utilities
  are copied; used as a concrete instance.
\<close>

definition typescript_DiagnosticCategory :: DiagnosticCategory where
  "typescript_DiagnosticCategory =
     \<lparr>Category_Warning = 0, Category_Error = 1, Category_Suggestion = 2, Category_Message = 3\<rparr>"

text \<open>The \<^verbatim>\<open>switch\<close> of \<^verbatim>\<open>toSeverity\<close>: the cases in the source's order, then the default.\<close>

definition toSeverity :: "DiagnosticCategory \<Rightarrow> int \<Rightarrow> MarkerSeverity" where
  "toSeverity dc lsSeverity =
     (if lsSeverity = Category_Error dc then Error
      else if lsSeverity = Category_Warning dc then Warning
      else if lsSeverity = Category_Message dc then Info
      else if lsSeverity = Category_Suggestion dc then Hint
      else Info)"

text \<open>The fields of \<^verbatim>\<open>ts.Diagnostic\<close> that the adapter reads.\<close>

record Diagnostic =
  category :: int
  start :: int
  diag_startColumn :: int
  diag_end :: int
  diag_endColumn :: int
  messageText :: MessageText

record IMarkerData =
  severity :: MarkerSeverity
  startLineNumber :: int
  startColumn :: int
  endLineNumber :: int
  endColumn :: int
  message :: string

definition newline :: string where
  "newline = [CHR 0x0A]"

definition convertDiagnostics :: "DiagnosticCategory \<Rightarrow> string \<Rightarrow> Diagnostic \<Rightarrow> IMarkerData" where
  "convertDiagnostics dc resource diag =
     \<lparr>severity = toSeverity dc (category diag),
      startLineNumber = start diag,
      startColumn = diag_startColumn diag,
      endLineNumber = diag_end diag,
      endColumn = diag_endColumn diag,
      message = flattenDiagnosticMessageText (messageText diag) newline\<rparr>"

section \<open>Promises\<close>

text \<open>
  A settled promise is fulfilled with a value or rejected with an error.
  \<^verbatim>\<open>p.then(f)\<close> runs \<open>f\<close> on a fulfilled \<open>p\<close> and passes a rejection on;
  \<^verbatim>\<open>p.then(undefined, g)\<close> passes a fulfilled value on and runs \<open>g\<close> on a rejection.
  The callbacks act on a state and settle the promise that \<^verbatim>\<open>then\<close> returns.
\<close>

datatype 'a Settled = Fulfilled 'a | Rejected string

definition then_fulfilled ::
  "('a \<Rightarrow> 's \<Rightarrow> 'b Settled \<times> 's) \<Rightarrow> 'a Settled \<Rightarrow> 's \<Rightarrow> 'b Settled \<times> 's" where
  "then_fulfilled f p s = (case p of Fulfilled v \<Rightarrow> f v s | Rejected e \<Rightarrow> (Rejected e, s))"

definition then_rejected ::
  "(string \<Rightarrow> 's \<Rightarrow> 'a Settled \<times> 's) \<Rightarrow> 'a Settled \<Rightarrow> 's \<Rightarrow> 'a Settled \<times> 's" where
  "then_rejected g p s = (case p of Fulfilled v \<Rightarrow> (Fulfilled v, s) | Rejected e \<Rightarrow> g e s)"

section \<open>The language service defaults\<close>

text \<open>
  \<^verbatim>\<open>LanguageServiceDefaultsImpl\<close>: the two configuration fields (\<^verbatim>\<open>_eagerModelSync\<close> is
  undefined until it is set). Each method returns the new object together with the
  number of times it fired \<^verbatim>\<open>_onDidChange\<close>.
\<close>

record LanguageServiceDefaultsImpl =
  workerMaxIdleTime :: int
  eagerModelSync :: "bool option"

definition new_LanguageServiceDefaultsImpl :: LanguageServiceDefaultsImpl where
  "new_LanguageServiceDefaultsImpl = \<lparr>workerMaxIdleTime = 2 * 60 * 1000, eagerModelSync = None\<rparr>"

definition setMaximumWorkerIdleTime ::
  "int \<Rightarrow> LanguageServiceDefaultsImpl \<Rightarrow> LanguageServiceDefaultsImpl \<times> nat" where
  "setMaximumWorkerIdleTime v d = (d\<lparr>workerMaxIdleTime := v\<rparr>, 0)"

definition getWorkerMaxIdleTime :: "LanguageServiceDefaultsImpl \<Rightarrow> int" where
  "getWorkerMaxIdleTime d = workerMaxIdleTime d"

definition setEagerModelSync ::
  "bool \<Rightarrow> LanguageServiceDefaultsImpl \<Rightarrow> LanguageServiceDefaultsImpl \<times> nat" where
  "setEagerModelSync v d = (d\<lparr>eagerModelSync := Some v\<rparr>, 0)"

definition getEagerModelSync :: "LanguageServiceDefaultsImpl \<Rightarrow> bool option" where
  "getEagerModelSync d = eagerModelSync d"

section \<open>The editor host\<close>

text \<open>
  The host (\<^verbatim>\<open>monaco.editor\<close>, timers, the event loop) is not part of the sources. It is
  modelled by the state the adapter reads and writes through the host's interface:
  \<^item> the open models, each a model object (identified by \<open>mid\<close>) with a uri, a
    language id and its lines;
  \<^item> the marker store, keyed by uri and owner;
  \<^item> a clock in milliseconds and the pending timers; a timer carries the model object
    that its callback has captured;
  \<^item> the content listeners attached to model objects;
  \<^item> the errors that reached the event loop uncaught.
\<close>

record IModel =
  mid :: nat
  uri :: string
  modeId :: string
  linesContent :: "string list"

record Timer =
  timer_id :: nat
  due :: nat
  timer_model :: nat

text \<open>
  One call of \<^verbatim>\<open>_doValidate\<close> is one promise chain. It waits for the worker handle, then
  for the diagnostics, and is settled when the last \<^verbatim>\<open>then\<close> has run.
\<close>

datatype TaskState = AwaitWorker | AwaitDiagnostics | Settled

record Task =
  resource :: string
  contents :: string
  task_state :: TaskState

text \<open>
  The adapter's part of the state: \<open>listener\<close> is \<^verbatim>\<open>_listener\<close>, \<open>registered\<close> says that
  \<^verbatim>\<open>_disposables\<close> holds the top-level listeners, \<open>handles\<close> are the \<^verbatim>\<open>handle\<close> variables
  of the calls of \<^verbatim>\<open>onModelAdd\<close> (one per call, shared by the content listener and the
  disposable that the call creates), \<open>tasks\<close> are the promise chains of \<^verbatim>\<open>_doValidate\<close>
  in the order of the calls. A content listener and a disposable are each the pair of the
  model object and the handle variable that the closure has captured.
\<close>

record World =
  models :: "IModel list"
  next_mid :: nat
  markers :: "string \<times> string \<Rightarrow> IMarkerData list"
  now :: nat
  timers :: "Timer list"
  next_timer :: nat
  contentListeners :: "(nat \<times> nat) list"
  uncaught :: "string list"
  handles :: "nat \<Rightarrow> nat option"
  next_handle :: nat
  listener :: "string \<rightharpoonup> nat \<times> nat"
  registered :: bool
  tasks :: "Task list"
  defaults :: LanguageServiceDefaultsImpl

definition empty_world :: World where
  "empty_world =
     \<lparr>models = [], next_mid = 0, markers = (\<lambda>k. []), now = 0, timers = [], next_timer = 0,
      contentListeners = [], uncaught = [], handles = (\<lambda>h. None), next_handle = 0,
      listener = Map.empty, registered = False, tasks = [],
      defaults = new_LanguageServiceDefaultsImpl\<rparr>"

text \<open>The adapter's constructor parameters: \<^verbatim>\<open>_selector\<close> and the worker's category enum.\<close>

record Config =
  selector :: string
  categories :: DiagnosticCategory

definition getModel :: "string \<Rightarrow> World \<Rightarrow> IModel option" where
  "getModel u s = find (\<lambda>m. uri m = u) (models s)"

definition model_object :: "nat \<Rightarrow> World \<Rightarrow> IModel option" where
  "model_object i s = find (\<lambda>m. mid m = i) (models s)"

definition setModelMarkers :: "IModel \<Rightarrow> string \<Rightarrow> IMarkerData list \<Rightarrow> World \<Rightarrow> World" where
  "setModelMarkers model owner ms s = s\<lparr>markers := (markers s)((uri model, owner) := ms)\<rparr>"

definition setTimeout :: "nat \<Rightarrow> nat \<Rightarrow> World \<Rightarrow> nat \<times> World" where
  "setTimeout m delay s =
     (next_timer s,
      s\<lparr>timers := timers s @ [\<lparr>timer_id = next_timer s, due = now s + delay, timer_model = m\<rparr>],
        next_timer := Suc (next_timer s)\<rparr>)"

definition clearTimeout :: "nat option \<Rightarrow> World \<Rightarrow> World" where
  "clearTimeout h s =
     (case h of None \<Rightarrow> s
      | Some i \<Rightarrow> s\<lparr>timers := filter (\<lambda>t. timer_id t \<noteq> i) (timers s)\<rparr>)"

text \<open>\<^verbatim>\<open>lines.join(sep)\<close>.\<close>

fun join :: "string \<Rightarrow> string list \<Rightarrow> string" where
  "join sep [] = []"
| "join sep [x] = x"
| "join sep (x # y # ys) = x @ sep @ join sep (y # ys)"

section \<open>The diagnostics adapter\<close>

text \<open>\<^verbatim>\<open>_doValidate\<close> calls \<^verbatim>\<open>this._worker(resource)\<close> and chains on the promise it returns.\<close>

definition doValidate :: "string \<Rightarrow> string \<Rightarrow> World \<Rightarrow> World" where
  "doValidate res cont s =
     s\<lparr>tasks := tasks s @ [\<lparr>resource = res, contents = cont, task_state = AwaitWorker\<rparr>]\<rparr>"

text \<open>
  The callback of the debounce timer,
  \<^verbatim>\<open>() => this._doValidate(model.uri, model.getLinesContent().join('\n'))\<close>,
  reads the captured model object when it runs. On a disposed model
  \<^verbatim>\<open>getLinesContent\<close> throws, and the error reaches the event loop.
\<close>

definition timer_callback :: "nat \<Rightarrow> World \<Rightarrow> World" where
  "timer_callback m s =
     (case model_object m s of
        None \<Rightarrow> s\<lparr>uncaught := uncaught s @ [''Model is disposed!'']\<rparr>
      | Some model \<Rightarrow> doValidate (uri model) (join newline (linesContent model)) s)"

text \<open>The content listener of \<^verbatim>\<open>onModelAdd\<close>, for the captured model and handle variable.\<close>

definition changeContent_callback :: "nat \<times> nat \<Rightarrow> World \<Rightarrow> World" where
  "changeContent_callback c s =
     (let s1 = clearTimeout (handles s (snd c)) s;
          (t, s2) = setTimeout (fst c) 500 s1
      in s2\<lparr>handles := (handles s2)(snd c := Some t)\<rparr>)"

text \<open>The \<^verbatim>\<open>dispose\<close> of the object stored in \<^verbatim>\<open>_listener\<close>.\<close>

definition subscription_dispose :: "nat \<times> nat \<Rightarrow> World \<Rightarrow> World" where
  "subscription_dispose c s =
     (let s1 = s\<lparr>contentListeners := filter (\<lambda>l. l \<noteq> c) (contentListeners s)\<rparr>
      in clearTimeout (handles s1 (snd c)) s1)"

definition onModelAdd :: "Config \<Rightarrow> IModel \<Rightarrow> World \<Rightarrow> World" where
  "onModelAdd cfg model s =
     (if modeId model \<noteq> selector cfg then s
      else
        let h = next_handle s;
            s1 = s\<lparr>handles := (handles s)(h := None), next_handle := Suc h\<rparr>;
            s2 = s1\<lparr>contentListeners := contentListeners s1 @ [(mid model, h)]\<rparr>;
            s3 = s2\<lparr>listener := (listener s2)(uri model \<mapsto> (mid model, h))\<rparr>
        in doValidate (uri model) (join newline (linesContent model)) s3)"

definition onModelRemoved :: "Config \<Rightarrow> IModel \<Rightarrow> World \<Rightarrow> World" where
  "onModelRemoved cfg model s =
     (let s1 = setModelMarkers model (selector cfg) [] s;
          key = uri model
      in case listener s1 key of
           None \<Rightarrow> s1
         | Some d \<Rightarrow>
             (let s2 = subscription_dispose d s1
              in s2\<lparr>listener := (listener s2)(key := None)\<rparr>))"

definition recomputeDiagostics :: "Config \<Rightarrow> World \<Rightarrow> World" where
  "recomputeDiagostics cfg s =
     fold (\<lambda>model s'. onModelAdd cfg model (onModelRemoved cfg model s')) (models s) s"

text \<open>
  The constructor registers the top-level listeners and calls \<^verbatim>\<open>onModelAdd\<close> on the
  open models; \<^verbatim>\<open>dispose\<close> runs the disposables (which call \<^verbatim>\<open>onModelRemoved\<close> on the
  open models) and empties \<^verbatim>\<open>_disposables\<close>.
\<close>

definition construct :: "Config \<Rightarrow> World \<Rightarrow> World" where
  "construct cfg s =
     (if registered s then s
      else fold (onModelAdd cfg) (models s) (s\<lparr>registered := True\<rparr>))"

definition dispose :: "Config \<Rightarrow> World \<Rightarrow> World" where
  "dispose cfg s =
     (if registered s
      then fold (onModelRemoved cfg) (models s) (s\<lparr>registered := False\<rparr>)
      else s)"

subsection \<open>The promise chain of \<^verbatim>\<open>_doValidate\<close>\<close>

definition set_task_state :: "nat \<Rightarrow> TaskState \<Rightarrow> World \<Rightarrow> World" where
  "set_task_state k st s = s\<lparr>tasks := (tasks s)[k := (tasks s ! k)\<lparr>task_state := st\<rparr>]\<rparr>"

text \<open>
  The second callback: \<open>None\<close> is the \<^verbatim>\<open>null\<close> that the first callback returns for a
  disposed model, \<open>Some dss\<close> the array that \<^verbatim>\<open>Promise.all\<close> is fulfilled with.
\<close>

definition publish_callback ::
  "Config \<Rightarrow> string \<Rightarrow> Diagnostic list list option \<Rightarrow> World \<Rightarrow> unit Settled \<times> World" where
  "publish_callback cfg res diagnostics s =
     (case diagnostics of
        None \<Rightarrow> (Fulfilled (), s)
      | Some dss \<Rightarrow>
          (case getModel res s of
             None \<Rightarrow> (Fulfilled (), s)
           | Some model \<Rightarrow>
               (let ms = map (convertDiagnostics (categories cfg) res)
                             (foldl (\<lambda>p c. c @ p) [] dss)
                in (Fulfilled (), setModelMarkers model (selector cfg) ms s))))"

text \<open>The last callback, \<^verbatim>\<open>err => { }\<close>.\<close>

definition error_callback :: "string \<Rightarrow> World \<Rightarrow> unit Settled \<times> World" where
  "error_callback err s = (Fulfilled (), s)"

text \<open>
  Once the promise returned by the first \<^verbatim>\<open>then\<close> is settled, the two remaining
  \<^verbatim>\<open>then\<close>s run. A rejection of the last promise of the chain has no handler and
  reaches the event loop.
\<close>

definition finish_chain ::
  "Config \<Rightarrow> nat \<Rightarrow> Diagnostic list list option Settled \<Rightarrow> World \<Rightarrow> World" where
  "finish_chain cfg k p1 s =
     (let (p2, s2) = then_fulfilled (publish_callback cfg (resource (tasks s ! k))) p1 s;
          (p3, s3) = then_rejected error_callback p2 s2;
          s4 = set_task_state k Settled s3
      in case p3 of
           Fulfilled u \<Rightarrow> s4
         | Rejected e \<Rightarrow> s4\<lparr>uncaught := uncaught s4 @ [e]\<rparr>)"

text \<open>
  The promise of \<^verbatim>\<open>this._worker(resource)\<close> settles. When it is fulfilled the first
  callback runs: it returns \<^verbatim>\<open>null\<close> if no model has the uri any more, and otherwise
  the pending \<^verbatim>\<open>Promise.all\<close> of the one call \<^verbatim>\<open>worker.getLGDiagnostics(contents)\<close>.
\<close>

definition worker_settled :: "Config \<Rightarrow> nat \<Rightarrow> unit Settled \<Rightarrow> World \<Rightarrow> World" where
  "worker_settled cfg k p s =
     (if k < length (tasks s) \<and> task_state (tasks s ! k) = AwaitWorker
      then (case p of
              Fulfilled worker \<Rightarrow>
                (if getModel (resource (tasks s ! k)) s = None
                 then finish_chain cfg k (Fulfilled None) s
                 else set_task_state k AwaitDiagnostics s)
            | Rejected e \<Rightarrow> finish_chain cfg k (Rejected e) s)
      else s)"

text \<open>The promise of \<^verbatim>\<open>worker.getLGDiagnostics(contents)\<close> settles, and \<^verbatim>\<open>Promise.all\<close> with it.\<close>

definition diagnostics_settled ::
  "Config \<Rightarrow> nat \<Rightarrow> Diagnostic list Settled \<Rightarrow> World \<Rightarrow> World" where
  "diagnostics_settled cfg k p s =
     (if k < length (tasks s) \<and> task_state (tasks s ! k) = AwaitDiagnostics
      then (case p of
              Fulfilled ds \<Rightarrow> finish_chain cfg k (Fulfilled (Some [ds])) s
            | Rejected e \<Rightarrow> finish_chain cfg k (Rejected e) s)
      else s)"

section \<open>Events\<close>

text \<open>
  What the host, the worker and the application do, one event per turn of the event loop.
  The host refuses a second model with the uri of an open one, announces a change of
  language only when the language differs, and drops the listeners of a model that it
  disposes. \<open>Advance d\<close> lets \<open>d\<close> milliseconds pass and runs the timers that are due.
  \<open>DefaultsChanged\<close> is \<^verbatim>\<open>_onDidChange\<close> firing.
\<close>

datatype Event =
    Construct
  | Dispose
  | CreateModel string string "string list"
  | DisposeModel string
  | SetModelLanguage string string
  | ChangeContent string "string list"
  | Advance nat
  | WorkerSettled nat "unit Settled"
  | DiagnosticsSettled nat "Diagnostic list Settled"
  | DefaultsChanged
  | SetMaximumWorkerIdleTime int
  | SetEagerModelSync bool

definition create_model :: "Config \<Rightarrow> string \<Rightarrow> string \<Rightarrow> string list \<Rightarrow> World \<Rightarrow> World" where
  "create_model cfg u mode ls s =
     (case getModel u s of
        Some old \<Rightarrow> s
      | None \<Rightarrow>
          (let model = \<lparr>mid = next_mid s, uri = u, modeId = mode, linesContent = ls\<rparr>;
               s1 = s\<lparr>models := models s @ [model], next_mid := Suc (next_mid s)\<rparr>
           in if registered s1 then onModelAdd cfg model s1 else s1))"

definition dispose_model :: "Config \<Rightarrow> string \<Rightarrow> World \<Rightarrow> World" where
  "dispose_model cfg u s =
     (case getModel u s of
        None \<Rightarrow> s
      | Some model \<Rightarrow>
          (let s1 = (if registered s then onModelRemoved cfg model s else s)
           in s1\<lparr>models := filter (\<lambda>m. mid m \<noteq> mid model) (models s1),
                 contentListeners := filter (\<lambda>l. fst l \<noteq> mid model) (contentListeners s1)\<rparr>))"

definition set_model_language :: "Config \<Rightarrow> string \<Rightarrow> string \<Rightarrow> World \<Rightarrow> World" where
  "set_model_language cfg u mode s =
     (case getModel u s of
        None \<Rightarrow> s
      | Some old \<Rightarrow>
          (if modeId old = mode then s
           else
             let model = old\<lparr>modeId := mode\<rparr>;
                 s1 = s\<lparr>models := map (\<lambda>m. if mid m = mid old then model else m) (models s)\<rparr>
             in if registered s1 then onModelAdd cfg model (onModelRemoved cfg model s1) else s1))"

definition change_content :: "string \<Rightarrow> string list \<Rightarrow> World \<Rightarrow> World" where
  "change_content u ls s =
     (case getModel u s of
        None \<Rightarrow> s
      | Some old \<Rightarrow>
          (let model = old\<lparr>linesContent := ls\<rparr>;
               s1 = s\<lparr>models := map (\<lambda>m. if mid m = mid old then model else m) (models s)\<rparr>
           in fold changeContent_callback
                (filter (\<lambda>l. fst l = mid old) (contentListeners s1)) s1))"

definition advance :: "nat \<Rightarrow> World \<Rightarrow> World" where
  "advance d s =
     (let t1 = now s + d;
          s1 = s\<lparr>now := t1, timers := filter (\<lambda>t. \<not> due t \<le> t1) (timers s)\<rparr>
      in fold (\<lambda>t. timer_callback (timer_model t)) (filter (\<lambda>t. due t \<le> t1) (timers s)) s1)"

definition defaults_changed :: "Config \<Rightarrow> World \<Rightarrow> World" where
  "defaults_changed cfg s = (if registered s then recomputeDiagostics cfg s else s)"

text \<open>
  A method of the defaults object is called: the object is replaced, and the listeners of
  \<^verbatim>\<open>onDidChange\<close> run once for every time the method fired the event.
\<close>

definition call_defaults ::
  "Config \<Rightarrow> (LanguageServiceDefaultsImpl \<Rightarrow> LanguageServiceDefaultsImpl \<times> nat) \<Rightarrow> World \<Rightarrow> World" where
  "call_defaults cfg method s =
     (let (d, fired) = method (defaults s)
      in (defaults_changed cfg ^^ fired) (s\<lparr>defaults := d\<rparr>))"

fun step :: "Config \<Rightarrow> Event \<Rightarrow> World \<Rightarrow> World" where
  "step cfg Construct s = construct cfg s"
| "step cfg Dispose s = dispose cfg s"
| "step cfg (CreateModel u mode ls) s = create_model cfg u mode ls s"
| "step cfg (DisposeModel u) s = dispose_model cfg u s"
| "step cfg (SetModelLanguage u mode) s = set_model_language cfg u mode s"
| "step cfg (ChangeContent u ls) s = change_content u ls s"
| "step cfg (Advance d) s = advance d s"
| "step cfg (WorkerSettled k p) s = worker_settled cfg k p s"
| "step cfg (DiagnosticsSettled k p) s = diagnostics_settled cfg k p s"
| "step cfg DefaultsChanged s = defaults_changed cfg s"
| "step cfg (SetMaximumWorkerIdleTime v) s = call_defaults cfg (setMaximumWorkerIdleTime v) s"
| "step cfg (SetEagerModelSync v) s = call_defaults cfg (setEagerModelSync v) s"

definition run :: "Config \<Rightarrow> Event list \<Rightarrow> World \<Rightarrow> World" where
  "run cfg es s = fold (step cfg) es s"

inductive reachable :: "Config \<Rightarrow> World \<Rightarrow> bool" for cfg :: Config where
  reachable_init: "reachable cfg empty_world"
| reachable_step: "reachable cfg s \<Longrightarrow> reachable cfg (step cfg e s)"

section \<open>The completion adapter\<close>

text \<open>
  \<open>Range a b c d\<close> is \<^verbatim>\<open>new Range(a, b, c, d)\<close>. The word under the cursor,
  \<^verbatim>\<open>model.getWordUntilPosition(position)\<close>, is computed by the host and is a parameter.
  Characters outside ASCII in the catalog's texts are written as their UTF-8 bytes.
\<close>

datatype Range = Range int int int int

record Position =
  lineNumber :: int
  column :: int

record IWordAtPosition =
  word :: string
  word_startColumn :: int
  word_endColumn :: int

datatype CompletionItemKind = Snippet | Function

datatype CompletionItemInsertTextRule = InsertAsSnippet

record CompletionItem =
  label :: string
  kind :: CompletionItemKind
  item_range :: Range
  insertText :: string
  insertTextRules :: CompletionItemInsertTextRule
  documentation :: string

record CompletionList =
  list_suggestions :: "CompletionItem list"

text \<open>The array \<^verbatim>\<open>suggestions\<close> that the callback of \<^verbatim>\<open>provideCompletionItems\<close> builds.\<close>

definition suggestions :: "Range \<Rightarrow> CompletionItem list" where
  "suggestions wordRange =
   [\<lparr>label = ''ifelse'',
      kind = Snippet,
      item_range = wordRange,
      insertText = ''if (${1:condition}) {\<newline>'' @ [CHR 0x09] @ ''$0\<newline>} else {\<newline>'' @ [CHR 0x09] @ ''\<newline>}'',
      insertTextRules = InsertAsSnippet,
      documentation = ''If-Else Statement''\<rparr>,
    \<lparr>label = ''template'',
      kind = Snippet,
      item_range = wordRange,
      insertText = ''# ${1:template_name}(${2:optional_parameters})\<newline>- hi'',
      insertTextRules = InsertAsSnippet,
      documentation = ''New Template''\<rparr>,
    \<lparr>label = ''import'',
      kind = Snippet,
      item_range = wordRange,
      insertText = ''[import](${1:relative path of extra lg file})'',
      insertTextRules = InsertAsSnippet,
      documentation = ''New import''\<rparr>,
    \<lparr>label = ''switchcase'',
      kind = Snippet,
      item_range = wordRange,
      insertText = ''SWITCH:{${1:case}}\<newline>- CASE: {${2:case1}}\<newline>    - ${3:output1}\<newline>- CASE: {${4:case2}}\<newline>    - ${5:output2}\<newline>- DEFAULT:\<newline>   - ${6:final output}'',
      insertTextRules = InsertAsSnippet,
      documentation = ''Switch case Statement''\<rparr>,
    \<lparr>label = ''add'',
      kind = Function,
      item_range = wordRange,
      insertText = ''add(${1:number}, ${2:number})'',
      insertTextRules = InsertAsSnippet,
      documentation = ''Return the result from adding two numbers.''\<rparr>,
    \<lparr>label = ''div'',
      kind = Function,
      item_range = wordRange,
      insertText = ''div(${1:number}, ${2:number})'',
      insertTextRules = InsertAsSnippet,
      documentation = ''Return the integer result from dividing two numbers.''\<rparr>,
    \<lparr>label = ''mod'',
      kind = Function,
      item_range = wordRange,
      insertText = ''mod(${1:number}, ${2:number})'',
      insertTextRules = InsertAsSnippet,
      documentation = ''Return the remainder from dividing two numbers.''\<rparr>,
    \<lparr>label = ''mul'',
      kind = Function,
      item_range = wordRange,
      insertText = ''mul(${1:number}, ${2:number})'',
      insertTextRules = InsertAsSnippet,
      documentation = ''Return the product from multiplying two numbers.''\<rparr>,
    \<lparr>label = ''sub'',
      kind = Function,
      item_range = wordRange,
      insertText = ''sub(${1:number}, ${2:number})'',
      insertTextRules = InsertAsSnippet,
      documentation = ''Return the result from subtracting the second number from the first number.''\<rparr>,
    \<lparr>label = ''exp'',
      kind = Function,
      item_range = wordRange,
      insertText = ''exp(${1:number}, ${2:number})'',
      insertTextRules = InsertAsSnippet,
      documentation = ''Return the result from subtracting the second number from the first number.''\<rparr>,
    \<lparr>label = ''concat'',
      kind = Function,
      item_range = wordRange,
      insertText = ''concat(${1: string[]})'',
      insertTextRules = InsertAsSnippet,
      documentation = ''Combine two or more strings and return the resulting string. E.g. concat('' @ [CHR 0xE2, CHR 0x80, CHR 0x98] @ ''hello'' @ [CHR 0xE2, CHR 0x80, CHR 0x99] @ '', '' @ [CHR 0xE2, CHR 0x80, CHR 0x98] @ ''world'' @ [CHR 0xE2, CHR 0x80, CHR 0x99] @ '', '' @ [CHR 0xE2, CHR 0x80, CHR 0x98] @ [CHR 0xE2, CHR 0x80, CHR 0xA6] @ [CHR 0xE2, CHR 0x80, CHR 0x99] @ '')''\<rparr>,
    \<lparr>label = ''not'',
      kind = Function,
      item_range = wordRange,
      insertText = ''not(${1: expression})'',
      insertTextRules = InsertAsSnippet,
      documentation = ''Check whether an expression is false. Return true when the expression is false, or return false when true.''\<rparr>,
    \<lparr>label = ''and'',
      kind = Function,
      item_range = wordRange,
      insertText = ''and(${1: any[]})'',
      insertTextRules = InsertAsSnippet,
      documentation = ''Check whether all expressions are true. Return true when all expressions are true, or return false when at least one expression is false.''\<rparr>,
    \<lparr>label = ''or'',
      kind = Function,
      item_range = wordRange,
      insertText = ''or(${1: any[]})'',
      insertTextRules = InsertAsSnippet,
      documentation = ''Check whether at least one expression is true. Return true when at least one expression is true, or return false when all are false.''\<rparr>,
    \<lparr>label = ''equals'',
      kind = Function,
      item_range = wordRange,
      insertText = ''equals(${1: any}, ${2: any})'',
      insertTextRules = InsertAsSnippet,
      documentation = ''Comparison equal. Returns true if specified values are equal''\<rparr>,
    \<lparr>label = ''greater'',
      kind = Function,
      item_range = wordRange,
      insertText = ''greater(${1: any}, ${2: any})'',
      insertTextRules = InsertAsSnippet,
      documentation = ''Check whether the first value is greater than the second value. Return true when the first value is more, or return false when less.''\<rparr>,
    \<lparr>label = ''greaterOrEquals'',
      kind = Function,
      item_range = wordRange,
      insertText = ''greaterOrEquals(${1: any}, ${2: any})'',
      insertTextRules = InsertAsSnippet,
      documentation = ''Check whether the first value is greater than or equal to the second value. Return true when the first value is greater or equal, or return false when the first value is less.''\<rparr>,
    \<lparr>label = ''less'',
      kind = Function,
      item_range = wordRange,
      insertText = ''less(${1: any}, ${2: any})'',
      insertTextRules = InsertAsSnippet,
      documentation = ''Check whether the first value is less than the second value. Return true when the first value is less, or return false when the first value is more.''\<rparr>,
    \<lparr>label = ''lessOrEquals'',
      kind = Function,
      item_range = wordRange,
      insertText = ''lessOrEquals(${1: any}, ${2: any})'',
      insertTextRules = InsertAsSnippet,
      documentation = ''Check whether the first value is less than or equal to the second value. Return true when the first value is less than or equal, or return false when the first value is more.''\<rparr>,
    \<lparr>label = ''join'',
      kind = Function,
      item_range = wordRange,
      insertText = ''join(${1: Array}, ${2: string})'',
      insertTextRules = InsertAsSnippet,
      documentation = ''Return a string that has all the items from an array and has each character separated by a delimiter.''\<rparr>,
    \<lparr>label = ''first'',
      kind = Function,
      item_range = wordRange,
      insertText = ''first(${1: Array|string})'',
      insertTextRules = InsertAsSnippet,
      documentation = ''Returns the first item from the collection''\<rparr>,
    \<lparr>label = ''last'',
      kind = Function,
      item_range = wordRange,
      insertText = ''last(${1: Array|string})'',
      insertTextRules = InsertAsSnippet,
      documentation = ''Returns the last item from the collection''\<rparr>,
    \<lparr>label = ''foreach'',
      kind = Function,
      item_range = wordRange,
      insertText = ''foreach(${1: Array}, ${2: string}, ${3: function})'',
      insertTextRules = InsertAsSnippet,
      documentation = ''Operate on each element and return the new collection''\<rparr>,
    \<lparr>label = ''empty'',
      kind = Function,
      item_range = wordRange,
      insertText = ''empty(${1: Array})'',
      insertTextRules = InsertAsSnippet,
      documentation = ''Check if the collection is empty''\<rparr>,
    \<lparr>label = ''newGuid'',
      kind = Function,
      item_range = wordRange,
      insertText = ''newGuid()'',
      insertTextRules = InsertAsSnippet,
      documentation = ''Return new guid string''\<rparr>,
    \<lparr>label = ''min'',
      kind = Function,
      item_range = wordRange,
      insertText = ''min(${1: number[]})'',
      insertTextRules = InsertAsSnippet,
      documentation = ''Returns the smallest value from a collection''\<rparr>,
    \<lparr>label = ''max'',
      kind = Function,
      item_range = wordRange,
      insertText = ''max(${1: number[]})'',
      insertTextRules = InsertAsSnippet,
      documentation = ''Returns the largest value from a collection''\<rparr>,
    \<lparr>label = ''average'',
      kind = Function,
      item_range = wordRange,
      insertText = ''average(${1: number[]})'',
      insertTextRules = InsertAsSnippet,
      documentation = ''Returns the average value from a collection''\<rparr>,
    \<lparr>label = ''sum'',
      kind = Function,
      item_range = wordRange,
      insertText = ''sum(${1: number[]})'',
      insertTextRules = InsertAsSnippet,
      documentation = ''Return the result from adding numbers in a list.''\<rparr>,
    \<lparr>label = ''exists'',
      kind = Function,
      item_range = wordRange,
      insertText = ''exists(${1: expression})'',
      insertTextRules = InsertAsSnippet,
      documentation = ''Evaluates an expression for truthiness.''\<rparr>,
    \<lparr>label = ''length'',
      kind = Function,
      item_range = wordRange,
      insertText = ''length(${1: string})'',
      insertTextRules = InsertAsSnippet,
      documentation = ''Returns the length of a string.''\<rparr>,
    \<lparr>label = ''replace'',
      kind = Function,
      item_range = wordRange,
      insertText = ''replace(${1: string},${2: string}, ${3: string})'',
      insertTextRules = InsertAsSnippet,
      documentation = ''Replace a substring with the specified string, and return the updated string. case sensitive''\<rparr>,
    \<lparr>label = ''replaceIgnoreCase'',
      kind = Function,
      item_range = wordRange,
      insertText = ''replaceIgnoreCase(${1: string},${2: string}, ${3: string})'',
      insertTextRules = InsertAsSnippet,
      documentation = ''Replace a substring with the specified string, and return the updated string. case in-sensitive''\<rparr>,
    \<lparr>label = ''split'',
      kind = Function,
      item_range = wordRange,
      insertText = ''split(${1: string},${2: string})'',
      insertTextRules = InsertAsSnippet,
      documentation = ''Returns an array that contains substrings based on the delimiter specified.''\<rparr>,
    \<lparr>label = ''substring'',
      kind = Function,
      item_range = wordRange,
      insertText = ''substring(${1: string},${2: number}, ${3: number})'',
      insertTextRules = InsertAsSnippet,
      documentation = ''Returns characters from a string. Substring(sourceString, startPos, endPos). startPos cannot be less than 0. endPos greater than source strings length will be taken as the max length of the string''\<rparr>,
    \<lparr>label = ''toLower'',
      kind = Function,
      item_range = wordRange,
      insertText = ''toLower(${1: string})'',
      insertTextRules = InsertAsSnippet,
      documentation = ''Convert a string to all lower case characters''\<rparr>,
    \<lparr>label = ''toUpper'',
      kind = Function,
      item_range = wordRange,
      insertText = ''toUpper(${1: string})'',
      insertTextRules = InsertAsSnippet,
      documentation = ''Convert a string to all upper case characters''\<rparr>,
    \<lparr>label = ''trim'',
      kind = Function,
      item_range = wordRange,
      insertText = ''trim(${1: string})'',
      insertTextRules = InsertAsSnippet,
      documentation = ''Remove leading and trailing white spaces from a string''\<rparr>,
    \<lparr>label = ''count'',
      kind = Function,
      item_range = wordRange,
      insertText = ''count(${1: string|Array})'',
      insertTextRules = InsertAsSnippet,
      documentation = ''Returns the number of items in the collection''\<rparr>,
    \<lparr>label = ''contains'',
      kind = Function,
      item_range = wordRange,
      insertText = ''contains(${1: string|Array|Map}, ${2: stirng|object})'',
      insertTextRules = InsertAsSnippet,
      documentation = ''Works to find an item in a string or to find an item in an array or to find a parameter in a complex object. E.g. contains('' @ [CHR 0xE2, CHR 0x80, CHR 0x98] @ ''hello world, '' @ [CHR 0xE2, CHR 0x80, CHR 0x98] @ ''hello); contains(['' @ [CHR 0xE2, CHR 0x80, CHR 0x98] @ ''1'' @ [CHR 0xE2, CHR 0x80, CHR 0x99] @ '', '' @ [CHR 0xE2, CHR 0x80, CHR 0x98] @ ''2'' @ [CHR 0xE2, CHR 0x80, CHR 0x99] @ ''], '' @ [CHR 0xE2, CHR 0x80, CHR 0x98] @ ''1'' @ [CHR 0xE2, CHR 0x80, CHR 0x99] @ ''); contains({'' @ [CHR 0xE2, CHR 0x80, CHR 0x9C] @ ''foo'' @ [CHR 0xE2, CHR 0x80, CHR 0x9D] @ '':'' @ [CHR 0xE2, CHR 0x80, CHR 0x9D] @ ''bar'' @ [CHR 0xE2, CHR 0x80, CHR 0x9D] @ ''}, '' @ [CHR 0xE2, CHR 0x80, CHR 0x9C] @ ''foo'' @ [CHR 0xE2, CHR 0x80, CHR 0x9D] @ '')''\<rparr>,
    \<lparr>label = ''float'',
      kind = Function,
      item_range = wordRange,
      insertText = ''float(${1: string})'',
      insertTextRules = InsertAsSnippet,
      documentation = ''Return floating point representation of the specified string or the string itself if conversion is not possible''\<rparr>,
    \<lparr>label = ''int'',
      kind = Function,
      item_range = wordRange,
      insertText = ''int(${1: string})'',
      insertTextRules = InsertAsSnippet,
      documentation = ''Return integer representation of the specified string or the string itself if conversion is not possible.''\<rparr>,
    \<lparr>label = ''string'',
      kind = Function,
      item_range = wordRange,
      insertText = ''string(${1: any})'',
      insertTextRules = InsertAsSnippet,
      documentation = ''Return string version of the specified value.''\<rparr>,
    \<lparr>label = ''bool'',
      kind = Function,
      item_range = wordRange,
      insertText = ''bool(${1: any})'',
      insertTextRules = InsertAsSnippet,
      documentation = ''Return Boolean representation of the specified object. Bool('' @ [CHR 0xE2, CHR 0x80, CHR 0x98] @ ''true'' @ [CHR 0xE2, CHR 0x80, CHR 0x99] @ ''), bool(1)''\<rparr>,
    \<lparr>label = ''createArray'',
      kind = Function,
      item_range = wordRange,
      insertText = ''createArray(${1: any[]})'',
      insertTextRules = InsertAsSnippet,
      documentation = ''Create an array from multiple inputs''\<rparr>]"

text \<open>
  \<^verbatim>\<open>provideCompletionItems\<close> returns \<^verbatim>\<open>this._worker(resource).then(() => ...)\<close>: the result
  is the promise of that one \<^verbatim>\<open>then\<close>, given here as it settles once the promise of
  the worker handle has settled. The \<^verbatim>\<open>offset\<close> that the method computes first is not
  used.
\<close>

definition provideCompletionItems ::
  "IWordAtPosition \<Rightarrow> Position \<Rightarrow> unit Settled \<Rightarrow> 's \<Rightarrow> CompletionList Settled \<times> 's" where
  "provideCompletionItems wordInfo position worker s =
     (let wordRange = Range (lineNumber position) (word_startColumn wordInfo)
                            (lineNumber position) (word_endColumn wordInfo)
      in then_fulfilled
           (\<lambda>w s'. (Fulfilled \<lparr>list_suggestions = suggestions wordRange\<rparr>, s')) worker s)"

section \<open>The rendering of a message chain, in the specification's words\<close>

text \<open>
  The specification's description of the flattening, for comparison with the loop of
  the source: the texts of the links in order; a link at depth zero is its text, a link
  at a greater depth is a newline, two spaces per level of depth, and its text; the
  rendering is the concatenation of the links, the first at depth zero and each
  subsequent one a level deeper.
\<close>

fun chain_links :: "DiagnosticMessageChain \<Rightarrow> string list" where
  "chain_links (Chain msg None) = [msg]"
| "chain_links (Chain msg (Some c)) = msg # chain_links c"

definition spec_link :: "string \<Rightarrow> nat \<Rightarrow> string \<Rightarrow> string" where
  "spec_link newLine depth msg =
     (if depth = 0 then msg else newLine @ replicate (2 * depth) CHR 0x20 @ msg)"

fun spec_flatten :: "MessageText \<Rightarrow> string \<Rightarrow> string" where
  "spec_flatten (Flat s) newLine = s"
| "spec_flatten (Chained c) newLine =
     concat (map (\<lambda>(depth, msg). spec_link newLine depth msg) (enumerate 0 (chain_links c)))"

text \<open>
  A concrete configuration: the language id registered in \<^verbatim>\<open>monaco.contribution.ts\<close>
  as the selector.
\<close>

definition lg_config :: Config where
  "lg_config = \<lparr>selector = ''botbuilderlg'', categories = typescript_DiagnosticCategory\<rparr>"

text \<open>The events that call one of the two setters of the defaults object.\<close>

fun is_setter :: "Event \<Rightarrow> bool" where
  "is_setter (SetMaximumWorkerIdleTime v) = True"
| "is_setter (SetEagerModelSync v) = True"
| "is_setter e = False"

section \<open>Well-formed states of the adapter\<close>

text \<open>
  The identities of the open models: the model object and its uri. A state is
  well-formed when
  \<^item> the open models have distinct uris and distinct objects;
  \<^item> every pending timer has its own id, and is the timer that the handle variable of
    the subscription record of its model holds;
  \<^item> the content listeners are distinct, each belongs to the subscription record of
    its model, and every subscription record is that of an open model and has its
    content listener attached.
  The invariant of the adapter adds that there are no subscription records while the
  adapter is not constructed or is disposed.
\<close>

definition model_ids :: "World \<Rightarrow> (nat \<times> string) list" where
  "model_ids s = map (\<lambda>m. (mid m, uri m)) (models s)"

definition wf_models :: "World \<Rightarrow> bool" where
  "wf_models s \<longleftrightarrow>
     distinct (map fst (model_ids s)) \<and> distinct (map snd (model_ids s))
     \<and> (\<forall>p \<in> set (model_ids s). fst p < next_mid s)"

definition wf_timers :: "World \<Rightarrow> bool" where
  "wf_timers s \<longleftrightarrow>
     distinct (map timer_id (timers s))
     \<and> (\<forall>t \<in> set (timers s). timer_id t < next_timer s
           \<and> (\<exists>u h. (timer_model t, u) \<in> set (model_ids s)
                 \<and> listener s u = Some (timer_model t, h) \<and> handles s h = Some (timer_id t)))"

definition wf_listeners :: "World \<Rightarrow> bool" where
  "wf_listeners s \<longleftrightarrow>
     distinct (contentListeners s)
     \<and> (\<forall>l \<in> set (contentListeners s).
           \<exists>u. (fst l, u) \<in> set (model_ids s) \<and> listener s u = Some l)
     \<and> (\<forall>u l. listener s u = Some l \<longrightarrow>
           snd l < next_handle s \<and> l \<in> set (contentListeners s)
           \<and> (fst l, u) \<in> set (model_ids s))"

definition wf_world :: "World \<Rightarrow> bool" where
  "wf_world s \<longleftrightarrow> wf_models s \<and> wf_timers s \<and> wf_listeners s"

definition adapter_inv :: "World \<Rightarrow> bool" where
  "adapter_inv s \<longleftrightarrow> wf_world s \<and> (\<not> registered s \<longrightarrow> listener s = Map.empty)"

text \<open>
  A document is tracked when it has a subscription record. The pending timers of a model
  object are the timers whose callback has captured it. \<open>new_task u ls\<close> is the
  validation pass that \<^verbatim>\<open>_doValidate\<close> starts for the uri \<open>u\<close> and the lines \<open>ls\<close>.
\<close>

definition tracked :: "string \<Rightarrow> World \<Rightarrow> bool" where
  "tracked u s \<longleftrightarrow> listener s u \<noteq> None"

definition pending_timers :: "nat \<Rightarrow> World \<Rightarrow> Timer list" where
  "pending_timers i s = filter (\<lambda>t. timer_model t = i) (timers s)"

definition new_task :: "string \<Rightarrow> string list \<Rightarrow> Task" where
  "new_task u ls = \<lparr>resource = u, contents = join newline ls, task_state = AwaitWorker\<rparr>"

text \<open>
  The document \<open>u\<close> is armed: it is tracked, its lines are \<open>ls\<close>, and it has exactly one
  pending timer, due at \<open>T\<close>.
\<close>

definition armed :: "string \<Rightarrow> string list \<Rightarrow> nat \<Rightarrow> World \<Rightarrow> bool" where
  "armed u ls T s \<longleftrightarrow>
     adapter_inv s \<and> tracked u s
     \<and> (\<exists>m t. getModel u s = Some m \<and> linesContent m = ls
            \<and> pending_timers (mid m) s = [t] \<and> due t = T)"

text \<open>
  A burst of edits of the document \<open>u\<close>: each element is the time since the previous
  edit and the new lines.
\<close>

fun burst :: "string \<Rightarrow> (nat \<times> string list) list \<Rightarrow> Event list" where
  "burst u [] = []"
| "burst u ((d, ls) # rest) = Advance d # ChangeContent u ls # burst u rest"

text \<open>The events that create a model with the uri \<open>u\<close>.\<close>

fun creates :: "string \<Rightarrow> Event \<Rightarrow> bool" where
  "creates u (CreateModel u' mode ls) = (u' = u)"
| "creates u e = False"

section \<open>Example states\<close>

text \<open>An error diagnostic with a flat message, as the worker may return it.\<close>

definition example_diagnostic :: Diagnostic where
  "example_diagnostic =
     \<lparr>category = 1, start = 1, diag_startColumn = 1, diag_end = 1, diag_endColumn = 2,
      messageText = Flat ''bad''\<rparr>"

text \<open>The adapter is constructed, and then the document \<open>a.lg\<close> of the tracked language is
  opened: it is tracked, and its first validation pass waits for the worker handle.\<close>

definition tracked_world :: World where
  "tracked_world =
     run lg_config [Construct, CreateModel ''a.lg'' ''botbuilderlg'' [''x'']] empty_world"

text \<open>The model of \<open>a.lg\<close> in that state.\<close>

definition tracked_model :: IModel where
  "tracked_model = \<lparr>mid = 0, uri = ''a.lg'', modeId = ''botbuilderlg'', linesContent = [''x'']\<rparr>"

text \<open>The worker handle of that pass has resolved: the pass waits for the diagnostics.\<close>

definition awaiting_world :: World where
  "awaiting_world = step lg_config (WorkerSettled 0 (Fulfilled ())) tracked_world"

text \<open>The language of \<open>a.lg\<close> is changed to plain text while the pass is in flight; the
  handle resolves and the diagnostics arrive. The document is open and no longer tracked.\<close>

definition relabelled_world :: World where
  "relabelled_world =
     run lg_config
       [SetModelLanguage ''a.lg'' ''plaintext'',
        WorkerSettled 0 (Fulfilled ()),
        DiagnosticsSettled 0 (Fulfilled [example_diagnostic])]
       tracked_world"

text \<open>The model of \<open>a.lg\<close> in that state.\<close>

definition relabelled_model :: IModel where
  "relabelled_model = \<lparr>mid = 0, uri = ''a.lg'', modeId = ''plaintext'', linesContent = [''x'']\<rparr>"

text \<open>A second document of the tracked language is opened.\<close>

definition two_documents_world :: World where
  "two_documents_world = step lg_config (CreateModel ''b.lg'' ''botbuilderlg'' [''y'']) tracked_world"

text \<open>The document is disposed before the worker handle resolves.\<close>

definition disposed_early_world :: World where
  "disposed_early_world = step lg_config (DisposeModel ''a.lg'') tracked_world"

text \<open>The document is disposed after the handle has resolved and before the diagnostics arrive.\<close>

definition disposed_late_world :: World where
  "disposed_late_world = step lg_config (DisposeModel ''a.lg'') awaiting_world"

section \<open>Message flattening\<close>

lemma indent_loop_eq: "indent_loop i n r = r @ replicate (2 * (n - i)) CHR 0x20"
proof (induction i n r rule: indent_loop.induct)
  case (1 i indent result)
  show ?case
  proof (cases "i < indent")
    case True
    then have "indent - i = Suc (indent - Suc i)" by simp
    with 1 True show ?thesis
      by (subst indent_loop.simps) (simp add: replicate_append_same)
  next
    case False
    then show ?thesis by (subst indent_loop.simps) simp
  qed
qed

lemma chain_loop_eq:
  "chain_loop nl (Some c) k r =
     r @ concat (map (\<lambda>(depth, msg). spec_link nl depth msg) (enumerate k (chain_links c)))"
proof (induction c arbitrary: k r)
  case (Chain msg nxt)
  show ?case
  proof (cases nxt)
    case None
    then show ?thesis by (simp add: spec_link_def indent_loop_eq)
  next
    case (Some c')
    then have "c' \<in> set_option nxt" by simp
    from Chain [OF this] Some show ?thesis
      by (simp add: spec_link_def indent_loop_eq)
  qed
qed

text \<open>
  Claim C7. A flat string message is returned unchanged. A chained message is rendered
  as the concatenation of its links' texts, with a newline before every link after the
  first and two spaces of indentation per level of depth, the first link at depth zero
  and each subsequent link one level deeper: the loop of the source computes exactly the
  rendering described by \<open>spec_flatten\<close>.
\<close>

theorem flatten_refines_spec:
  "flattenDiagnosticMessageText (Flat str) nl = str
   \<and> flattenDiagnosticMessageText m nl = spec_flatten m nl"
  by (cases m) (simp_all add: chain_loop_eq)

text \<open>
  Claim C1, as stated: the chain A, B, C would flatten to A, newline, B, newline, two
  spaces, C. The source indents the second link by two spaces and the third by four, so
  the stated result is not what the function returns.
\<close>

theorem flatten_three_links_counterexample:
  "flattenDiagnosticMessageText
     (Chained (Chain ''A'' (Some (Chain ''B'' (Some (Chain ''C'' None)))))) newline
   \<noteq> ''A\<newline>B\<newline>  C''"
  by (simp add: newline_def indent_loop.simps)

text \<open>
  Claim C1, amended: the chain A, B, C flattens to A, newline, two spaces, B, newline,
  four spaces, C. The first link is unindented, the link at depth \<open>k\<close> follows a newline
  and \<open>2 * k\<close> spaces.
\<close>

theorem flatten_three_links:
  "flattenDiagnosticMessageText
     (Chained (Chain ''A'' (Some (Chain ''B'' (Some (Chain ''C'' None)))))) newline
   = ''A\<newline>  B\<newline>    C''"
  by (simp add: newline_def indent_loop.simps)

section \<open>Severity conversion\<close>

text \<open>
  Claim C6. The severity conversion is a total function. When the four members of the
  worker's category enum are distinct values, it maps Error to Error, Warning to
  Warning, Message to Info and Suggestion to Hint, and every other number to Info.
\<close>

theorem toSeverity_table:
  assumes "distinct [Category_Error dc, Category_Warning dc, Category_Message dc,
                     Category_Suggestion dc]"
  shows "toSeverity dc (Category_Error dc) = Error
       \<and> toSeverity dc (Category_Warning dc) = Warning
       \<and> toSeverity dc (Category_Message dc) = Info
       \<and> toSeverity dc (Category_Suggestion dc) = Hint
       \<and> (\<forall>v. v \<notin> {Category_Error dc, Category_Warning dc, Category_Message dc,
                     Category_Suggestion dc}
              \<longrightarrow> toSeverity dc v = Info)"
  using assms by (auto simp: toSeverity_def)

text \<open>The table at TypeScript's numbering of the categories, with 99 as the unrecognised value.\<close>

theorem toSeverity_table_witness:
  "distinct [Category_Error typescript_DiagnosticCategory,
             Category_Warning typescript_DiagnosticCategory,
             Category_Message typescript_DiagnosticCategory,
             Category_Suggestion typescript_DiagnosticCategory]
   \<and> (99::int) \<notin> {Category_Error typescript_DiagnosticCategory,
                    Category_Warning typescript_DiagnosticCategory,
                    Category_Message typescript_DiagnosticCategory,
                    Category_Suggestion typescript_DiagnosticCategory}
   \<and> map (toSeverity typescript_DiagnosticCategory)
         [Category_Error typescript_DiagnosticCategory,
          Category_Warning typescript_DiagnosticCategory,
          Category_Message typescript_DiagnosticCategory,
          Category_Suggestion typescript_DiagnosticCategory, 99]
       = [Error, Warning, Info, Hint, Info]"
proof -
  have d: "distinct [Category_Error typescript_DiagnosticCategory,
                     Category_Warning typescript_DiagnosticCategory,
                     Category_Message typescript_DiagnosticCategory,
                     Category_Suggestion typescript_DiagnosticCategory]"
    by (simp add: typescript_DiagnosticCategory_def)
  have n: "(99::int) \<notin> {Category_Error typescript_DiagnosticCategory,
                          Category_Warning typescript_DiagnosticCategory,
                          Category_Message typescript_DiagnosticCategory,
                          Category_Suggestion typescript_DiagnosticCategory}"
    by (simp add: typescript_DiagnosticCategory_def)
  from toSeverity_table [OF d] n d show ?thesis by simp
qed

section \<open>Completion\<close>

text \<open>
  Claim C8, as stated: the completion operation would return the static catalog even
  when the promise of the worker handle rejects. The result is the promise of the one
  \<^verbatim>\<open>then\<close> on the handle's promise, which has no rejection handler: for the word
  \<open>temp\<close> at line 1 and a rejected handle, the result is not the catalog.
\<close>

theorem completion_rejected_handle_counterexample:
  "fst (provideCompletionItems \<lparr>word = ''temp'', word_startColumn = 1, word_endColumn = 5\<rparr>
          \<lparr>lineNumber = 1, column = 5\<rparr> (Rejected ''no worker'') ())
   \<noteq> Fulfilled \<lparr>list_suggestions = suggestions (Range 1 1 1 5)\<rparr>"
  by (simp add: provideCompletionItems_def then_fulfilled_def)

text \<open>
  Claim C8, amended: for every document and cursor position, the completion operation
  returns the static catalog, with the range of the word under the cursor, when the
  promise of the worker handle is fulfilled; when that promise rejects, the completion
  result rejects with the same error and no suggestions are returned.
\<close>

theorem completion_follows_handle:
  "provideCompletionItems wordInfo position (Fulfilled w) s =
     (Fulfilled \<lparr>list_suggestions =
        suggestions (Range (lineNumber position) (word_startColumn wordInfo)
                           (lineNumber position) (word_endColumn wordInfo))\<rparr>, s)
   \<and> provideCompletionItems wordInfo position (Rejected e) s = (Rejected e, s)"
  by (simp add: provideCompletionItems_def then_fulfilled_def)

section \<open>The setters of the defaults object\<close>

lemma step_setter: "is_setter e \<Longrightarrow> step cfg e s = s\<lparr>defaults := defaults (step cfg e s)\<rparr>"
  by (cases e) (simp_all add: call_defaults_def setMaximumWorkerIdleTime_def setEagerModelSync_def)

lemma run_setters:
  "list_all is_setter es \<Longrightarrow> run cfg es s = s\<lparr>defaults := defaults (run cfg es s)\<rparr>"
proof (induction es arbitrary: s)
  case Nil
  then show ?case by (simp add: run_def)
next
  case (Cons e es)
  then have e: "is_setter e" and es: "list_all is_setter es" by simp_all
  have "run cfg (e # es) s = run cfg es (step cfg e s)" by (simp add: run_def)
  also have "\<dots> = (step cfg e s)\<lparr>defaults := defaults (run cfg es (step cfg e s))\<rparr>"
    using Cons.IH [OF es] .
  also have "\<dots> = s\<lparr>defaults := defaults (run cfg es (step cfg e s))\<rparr>"
    by (subst step_setter [OF e]) simp
  finally show ?case by (simp add: run_def)
qed

text \<open>
  Claim C10. \<^verbatim>\<open>setMaximumWorkerIdleTime\<close> and \<^verbatim>\<open>setEagerModelSync\<close> each change only their
  own field and fire \<^verbatim>\<open>onDidChange\<close> zero times. So after any sequence of calls of the
  two setters the state differs from the state before in the defaults object only: the
  adapter's recompute path has not run, and no validation pass has been added.
\<close>

theorem setters_fire_nothing:
  "snd (setMaximumWorkerIdleTime v d) = 0
   \<and> fst (setMaximumWorkerIdleTime v d) = d\<lparr>workerMaxIdleTime := v\<rparr>
   \<and> snd (setEagerModelSync b d) = 0
   \<and> fst (setEagerModelSync b d) = d\<lparr>eagerModelSync := Some b\<rparr>
   \<and> (list_all is_setter es \<longrightarrow>
        run cfg es s = s\<lparr>defaults := defaults (run cfg es s)\<rparr>
        \<and> tasks (run cfg es s) = tasks s)"
proof -
  have "list_all is_setter es \<Longrightarrow> tasks (run cfg es s) = tasks s"
    by (subst run_setters) simp_all
  then show ?thesis
    by (auto simp: setMaximumWorkerIdleTime_def setEagerModelSync_def intro: run_setters)
qed

text \<open>Two calls of the setters on the initial state.\<close>

theorem setters_fire_nothing_witness:
  "list_all is_setter [SetMaximumWorkerIdleTime 1000, SetEagerModelSync True]
   \<and> tasks (run lg_config [SetMaximumWorkerIdleTime 1000, SetEagerModelSync True] empty_world)
       = tasks empty_world
   \<and> workerMaxIdleTime (defaults
         (run lg_config [SetMaximumWorkerIdleTime 1000, SetEagerModelSync True] empty_world)) = 1000"
proof -
  have a: "list_all is_setter [SetMaximumWorkerIdleTime 1000, SetEagerModelSync True]"
    by simp
  have b: "workerMaxIdleTime (defaults
         (run lg_config [SetMaximumWorkerIdleTime 1000, SetEagerModelSync True] empty_world)) = 1000"
    by (simp add: run_def call_defaults_def setMaximumWorkerIdleTime_def setEagerModelSync_def)
  from setters_fire_nothing [of _ _ _ "[SetMaximumWorkerIdleTime 1000, SetEagerModelSync True]"
      lg_config empty_world] a b
  show ?thesis by simp
qed

section \<open>Well-formed states\<close>

lemma wf_world_cong:
  assumes "model_ids s' = model_ids s" "next_mid s' = next_mid s" "timers s' = timers s"
    "next_timer s' = next_timer s" "contentListeners s' = contentListeners s"
    "handles s' = handles s" "next_handle s' = next_handle s" "listener s' = listener s"
  shows "wf_world s' = wf_world s"
  by (simp add: wf_world_def wf_models_def wf_timers_def wf_listeners_def assms)

lemma distinct_fst_unique:
  "distinct (map fst xs) \<Longrightarrow> (a, b) \<in> set xs \<Longrightarrow> (a, b') \<in> set xs \<Longrightarrow> b = b'"
  by (induction xs) (auto simp: image_iff)

lemma distinct_snd_unique:
  "distinct (map snd xs) \<Longrightarrow> (a, b) \<in> set xs \<Longrightarrow> (a', b) \<in> set xs \<Longrightarrow> a = a'"
  by (induction xs) (auto simp: image_iff)

lemma same_mid_same_uri:
  "wf_models s \<Longrightarrow> (i, u) \<in> set (model_ids s) \<Longrightarrow> (i, u') \<in> set (model_ids s) \<Longrightarrow> u = u'"
  unfolding wf_models_def by (blast dest: distinct_fst_unique)

lemma same_uri_same_mid:
  "wf_models s \<Longrightarrow> (i, u) \<in> set (model_ids s) \<Longrightarrow> (i', u) \<in> set (model_ids s) \<Longrightarrow> i = i'"
  unfolding wf_models_def by (blast dest: distinct_snd_unique)

lemma timers_clearTimeout:
  "timers (clearTimeout h s) = filter (\<lambda>t. Some (timer_id t) \<noteq> h) (timers s)"
  by (cases h) (simp_all add: clearTimeout_def)

lemma clearTimeout_eq:
  "clearTimeout h s = s\<lparr>timers := filter (\<lambda>t. Some (timer_id t) \<noteq> h) (timers s)\<rparr>"
  by (cases h) (simp_all add: clearTimeout_def)

lemma onModelRemoved_untracked:
  "listener s (uri model) = None \<Longrightarrow>
   onModelRemoved cfg model s = s\<lparr>markers := (markers s)((uri model, selector cfg) := [])\<rparr>"
  by (simp add: onModelRemoved_def setModelMarkers_def)

lemma onModelRemoved_tracked:
  "listener s (uri model) = Some d \<Longrightarrow>
   onModelRemoved cfg model s =
     s\<lparr>markers := (markers s)((uri model, selector cfg) := []),
       contentListeners := filter (\<lambda>l. l \<noteq> d) (contentListeners s),
       timers := filter (\<lambda>t. Some (timer_id t) \<noteq> handles s (snd d)) (timers s),
       listener := (listener s)(uri model := None)\<rparr>"
  by (simp add: onModelRemoved_def setModelMarkers_def subscription_dispose_def clearTimeout_eq
      Let_def)

lemma onModelRemoved_listener [simp]:
  "listener (onModelRemoved cfg model s) = (listener s)(uri model := None)"
  by (cases "listener s (uri model)") (auto simp: onModelRemoved_untracked onModelRemoved_tracked)

lemma onModelRemoved_fields [simp]:
  "models (onModelRemoved cfg model s) = models s"
  "next_mid (onModelRemoved cfg model s) = next_mid s"
  "tasks (onModelRemoved cfg model s) = tasks s"
  "registered (onModelRemoved cfg model s) = registered s"
  "now (onModelRemoved cfg model s) = now s"
  "handles (onModelRemoved cfg model s) = handles s"
  "next_handle (onModelRemoved cfg model s) = next_handle s"
  "next_timer (onModelRemoved cfg model s) = next_timer s"
  "uncaught (onModelRemoved cfg model s) = uncaught s"
  "defaults (onModelRemoved cfg model s) = defaults s"
  by (cases "listener s (uri model)"; simp add: onModelRemoved_untracked onModelRemoved_tracked)+

lemma model_ids_onModelRemoved [simp]: "model_ids (onModelRemoved cfg model s) = model_ids s"
  by (simp add: model_ids_def)

lemma wf_timersD:
  assumes "wf_timers s" "t \<in> set (timers s)"
  obtains u h where "(timer_model t, u) \<in> set (model_ids s)"
    "listener s u = Some (timer_model t, h)" "handles s h = Some (timer_id t)"
  using assms unfolding wf_timers_def by blast

lemma wf_listenersD1:
  assumes "wf_listeners s" "l \<in> set (contentListeners s)"
  obtains u where "(fst l, u) \<in> set (model_ids s)" "listener s u = Some l"
  using assms unfolding wf_listeners_def by blast

lemma wf_listenersD2:
  assumes "wf_listeners s" "listener s u = Some l"
  shows "snd l < next_handle s" "l \<in> set (contentListeners s)" "(fst l, u) \<in> set (model_ids s)"
  using assms unfolding wf_listeners_def by blast+

lemma wf_onModelRemoved:
  assumes wf: "wf_world s"
  shows "wf_world (onModelRemoved cfg model s)"
proof (cases "listener s (uri model)")
  case None
  have "wf_world (onModelRemoved cfg model s) = wf_world s"
    by (rule wf_world_cong) (simp_all add: onModelRemoved_untracked None model_ids_def)
  with wf show ?thesis by simp
next
  case (Some d)
  let ?s' = "onModelRemoved cfg model s"
  from wf have wm: "wf_models s" and wt: "wf_timers s" and wl: "wf_listeners s"
    by (simp_all add: wf_world_def)
  have eq: "?s' = s\<lparr>markers := (markers s)((uri model, selector cfg) := []),
       contentListeners := filter (\<lambda>l. l \<noteq> d) (contentListeners s),
       timers := filter (\<lambda>t. Some (timer_id t) \<noteq> handles s (snd d)) (timers s),
       listener := (listener s)(uri model := None)\<rparr>"
    using Some by (rule onModelRemoved_tracked)
  have f: "contentListeners ?s' = filter (\<lambda>l. l \<noteq> d) (contentListeners s)"
    by (simp add: eq)
  have tsub: "set (timers ?s') \<subseteq> set (timers s)"
    by (auto simp: eq)
  have tgone: "\<And>t. t \<in> set (timers ?s') \<Longrightarrow> handles s (snd d) \<noteq> Some (timer_id t)"
    by (auto simp: eq)
  have "wf_models ?s'" using wm by (simp add: wf_models_def)
  moreover have "wf_timers ?s'"
    unfolding wf_timers_def
  proof (intro conjI ballI)
    show "distinct (map timer_id (timers ?s'))"
      using wt by (simp add: eq wf_timers_def distinct_map_filter)
  next
    fix t assume t: "t \<in> set (timers ?s')"
    with tsub have ts: "t \<in> set (timers s)" by auto
    with wt show "timer_id t < next_timer ?s'" by (simp add: wf_timers_def)
    from wt ts obtain u h where m: "(timer_model t, u) \<in> set (model_ids s)"
      "listener s u = Some (timer_model t, h)" "handles s h = Some (timer_id t)"
      by (rule wf_timersD)
    have "u \<noteq> uri model"
    proof
      assume "u = uri model"
      with m Some have "d = (timer_model t, h)" by simp
      with m tgone [OF t] show False by simp
    qed
    with m show "\<exists>u h. (timer_model t, u) \<in> set (model_ids ?s')
        \<and> listener ?s' u = Some (timer_model t, h) \<and> handles ?s' h = Some (timer_id t)"
      by (intro exI [of _ u] exI [of _ h]) simp_all
  qed
  moreover have "wf_listeners ?s'"
    unfolding wf_listeners_def
  proof (intro conjI ballI allI impI)
    show "distinct (contentListeners ?s')" using wl by (simp add: f wf_listeners_def)
  next
    fix l assume "l \<in> set (contentListeners ?s')"
    then have l: "l \<in> set (contentListeners s)" "l \<noteq> d" by (simp_all add: f)
    with wl obtain u where m: "(fst l, u) \<in> set (model_ids s)" "listener s u = Some l"
      by (auto elim: wf_listenersD1)
    with Some l have "u \<noteq> uri model" by auto
    with m show "\<exists>u. (fst l, u) \<in> set (model_ids ?s') \<and> listener ?s' u = Some l"
      by (intro exI [of _ u]) simp_all
  next
    fix u l assume "listener ?s' u = Some l"
    then have u: "u \<noteq> uri model" "listener s u = Some l" by (auto split: if_splits)
    note a = wf_listenersD2 [OF wl u(2)]
    note m' = wf_listenersD2(3) [OF wl Some]
    have "l \<noteq> d"
    proof
      assume "l = d"
      with wm a(3) m' have "u = uri model" by (auto dest: same_mid_same_uri)
      with u show False by simp
    qed
    with a show "snd l < next_handle ?s'" "l \<in> set (contentListeners ?s')" by (simp_all add: f)
    from a show "(fst l, u) \<in> set (model_ids ?s')" by simp
  qed
  ultimately show ?thesis by (simp add: wf_world_def)
qed

lemma onModelAdd_other: "modeId model \<noteq> selector cfg \<Longrightarrow> onModelAdd cfg model s = s"
  by (simp add: onModelAdd_def)

lemma onModelAdd_tracked:
  "modeId model = selector cfg \<Longrightarrow>
   onModelAdd cfg model s =
     s\<lparr>handles := (handles s)(next_handle s := None),
       next_handle := Suc (next_handle s),
       contentListeners := contentListeners s @ [(mid model, next_handle s)],
       listener := (listener s)(uri model \<mapsto> (mid model, next_handle s)),
       tasks := tasks s @ [\<lparr>resource = uri model, contents = join newline (linesContent model),
                            task_state = AwaitWorker\<rparr>]\<rparr>"
  by (simp add: onModelAdd_def doValidate_def Let_def)

lemma onModelAdd_fields [simp]:
  "models (onModelAdd cfg model s) = models s"
  "next_mid (onModelAdd cfg model s) = next_mid s"
  "markers (onModelAdd cfg model s) = markers s"
  "registered (onModelAdd cfg model s) = registered s"
  "now (onModelAdd cfg model s) = now s"
  "timers (onModelAdd cfg model s) = timers s"
  "next_timer (onModelAdd cfg model s) = next_timer s"
  "uncaught (onModelAdd cfg model s) = uncaught s"
  "defaults (onModelAdd cfg model s) = defaults s"
  by (cases "modeId model = selector cfg"; simp add: onModelAdd_other onModelAdd_tracked)+

lemma model_ids_onModelAdd [simp]: "model_ids (onModelAdd cfg model s) = model_ids s"
  by (simp add: model_ids_def)

lemma wf_onModelAdd:
  assumes wf: "wf_world s" and mem: "(mid model, uri model) \<in> set (model_ids s)"
    and free: "listener s (uri model) = None"
  shows "wf_world (onModelAdd cfg model s)"
proof (cases "modeId model = selector cfg")
  case False
  with wf show ?thesis by (simp add: onModelAdd_other)
next
  case True
  let ?s' = "onModelAdd cfg model s"
  let ?n = "(mid model, next_handle s)"
  from wf have wm: "wf_models s" and wt: "wf_timers s" and wl: "wf_listeners s"
    by (simp_all add: wf_world_def)
  have eq: "?s' = s\<lparr>handles := (handles s)(next_handle s := None),
       next_handle := Suc (next_handle s),
       contentListeners := contentListeners s @ [?n],
       listener := (listener s)(uri model \<mapsto> ?n),
       tasks := tasks s @ [\<lparr>resource = uri model, contents = join newline (linesContent model),
                            task_state = AwaitWorker\<rparr>]\<rparr>"
    using True by (rule onModelAdd_tracked)
  have f: "handles ?s' = (handles s)(next_handle s := None)"
    "next_handle ?s' = Suc (next_handle s)"
    "contentListeners ?s' = contentListeners s @ [?n]"
    "listener ?s' = (listener s)(uri model \<mapsto> ?n)"
    by (simp_all add: eq)
  have "wf_models ?s'" using wm by (simp add: wf_models_def)
  moreover have "wf_timers ?s'"
    unfolding wf_timers_def
  proof (intro conjI ballI)
    show "distinct (map timer_id (timers ?s'))" using wt by (simp add: wf_timers_def)
  next
    fix t assume "t \<in> set (timers ?s')"
    then have ts: "t \<in> set (timers s)" by simp
    with wt show "timer_id t < next_timer ?s'" by (simp add: wf_timers_def)
    from wt ts obtain u h where m: "(timer_model t, u) \<in> set (model_ids s)"
      "listener s u = Some (timer_model t, h)" "handles s h = Some (timer_id t)"
      by (rule wf_timersD)
    from m free have ne: "u \<noteq> uri model" by auto
    from wf_listenersD2(1) [OF wl m(2)] have "h < next_handle s" by simp
    with m ne show "\<exists>u h. (timer_model t, u) \<in> set (model_ids ?s')
        \<and> listener ?s' u = Some (timer_model t, h) \<and> handles ?s' h = Some (timer_id t)"
      by (intro exI [of _ u] exI [of _ h]) (simp_all add: f)
  qed
  moreover have "wf_listeners ?s'"
    unfolding wf_listeners_def
  proof (intro conjI ballI allI impI)
    have "?n \<notin> set (contentListeners s)"
    proof
      assume "?n \<in> set (contentListeners s)"
      with wl obtain u where "listener s u = Some ?n" by (auto elim: wf_listenersD1)
      from wf_listenersD2(1) [OF wl this] show False by simp
    qed
    with wl show "distinct (contentListeners ?s')" by (simp add: f wf_listeners_def)
  next
    fix l assume "l \<in> set (contentListeners ?s')"
    then consider "l \<in> set (contentListeners s)" | "l = ?n" by (auto simp: f)
    then show "\<exists>u. (fst l, u) \<in> set (model_ids ?s') \<and> listener ?s' u = Some l"
    proof cases
      case 1
      with wl obtain u where m: "(fst l, u) \<in> set (model_ids s)" "listener s u = Some l"
        by (auto elim: wf_listenersD1)
      with free have "u \<noteq> uri model" by auto
      with m show ?thesis by (intro exI [of _ u]) (simp_all add: f)
    next
      case 2
      with mem show ?thesis by (intro exI [of _ "uri model"]) (simp_all add: f)
    qed
  next
    fix u l assume a: "listener ?s' u = Some l"
    show "snd l < next_handle ?s'"
    proof (cases "u = uri model")
      case True with a show ?thesis by (auto simp: f)
    next
      case False
      with a have "listener s u = Some l" by (simp add: f)
      from wf_listenersD2(1) [OF wl this] show ?thesis by (simp add: f)
    qed
    show "l \<in> set (contentListeners ?s')"
    proof (cases "u = uri model")
      case True with a show ?thesis by (auto simp: f)
    next
      case False
      with a have "listener s u = Some l" by (simp add: f)
      from wf_listenersD2(2) [OF wl this] show ?thesis by (simp add: f)
    qed
    show "(fst l, u) \<in> set (model_ids ?s')"
    proof (cases "u = uri model")
      case True with a mem show ?thesis by (auto simp: f)
    next
      case False
      with a have "listener s u = Some l" by (simp add: f)
      from wf_listenersD2(3) [OF wl this] show ?thesis by simp
    qed
  qed
  ultimately show ?thesis by (simp add: wf_world_def)
qed

section \<open>The content listener\<close>

lemma changeContent_callback_eq:
  "changeContent_callback c s =
     s\<lparr>timers := filter (\<lambda>t. Some (timer_id t) \<noteq> handles s (snd c)) (timers s)
                  @ [\<lparr>timer_id = next_timer s, due = now s + 500, timer_model = fst c\<rparr>],
       next_timer := Suc (next_timer s),
       handles := (handles s)(snd c := Some (next_timer s))\<rparr>"
  by (simp add: changeContent_callback_def setTimeout_def clearTimeout_eq Let_def)

lemma changeContent_callback_fields [simp]:
  "models (changeContent_callback c s) = models s"
  "next_mid (changeContent_callback c s) = next_mid s"
  "markers (changeContent_callback c s) = markers s"
  "registered (changeContent_callback c s) = registered s"
  "now (changeContent_callback c s) = now s"
  "contentListeners (changeContent_callback c s) = contentListeners s"
  "listener (changeContent_callback c s) = listener s"
  "next_handle (changeContent_callback c s) = next_handle s"
  "uncaught (changeContent_callback c s) = uncaught s"
  "defaults (changeContent_callback c s) = defaults s"
  "tasks (changeContent_callback c s) = tasks s"
  "model_ids (changeContent_callback c s) = model_ids s"
  by (simp_all add: changeContent_callback_eq model_ids_def)

lemma wf_changeContent_callback:
  assumes wf: "wf_world s" and c: "c \<in> set (contentListeners s)"
  shows "wf_world (changeContent_callback c s)"
proof -
  let ?s' = "changeContent_callback c s"
  let ?new = "\<lparr>timer_id = next_timer s, due = now s + 500, timer_model = fst c\<rparr>"
  from wf have wm: "wf_models s" and wt: "wf_timers s" and wl: "wf_listeners s"
    by (simp_all add: wf_world_def)
  have f: "timers ?s' = filter (\<lambda>t. Some (timer_id t) \<noteq> handles s (snd c)) (timers s) @ [?new]"
    "next_timer ?s' = Suc (next_timer s)"
    "handles ?s' = (handles s)(snd c := Some (next_timer s))"
    by (simp_all add: changeContent_callback_eq)
  have "wf_models ?s'" using wm by (simp add: wf_models_def)
  moreover have "wf_listeners ?s'" using wl by (simp add: wf_listeners_def)
  moreover have "wf_timers ?s'"
    unfolding wf_timers_def
  proof (intro conjI ballI)
    have "\<forall>t \<in> set (timers s). timer_id t \<noteq> next_timer s"
      using wt by (auto simp: wf_timers_def)
    then show "distinct (map timer_id (timers ?s'))"
      using wt by (auto simp: f wf_timers_def distinct_map_filter)
  next
    fix t assume "t \<in> set (timers ?s')"
    then consider "t \<in> set (timers s)" "Some (timer_id t) \<noteq> handles s (snd c)" | "t = ?new"
      by (auto simp: f)
    then show "timer_id t < next_timer ?s'"
    proof cases
      case 1 with wt show ?thesis by (simp add: f wf_timers_def less_Suc_eq)
    next
      case 2 then show ?thesis by (simp add: f)
    qed
  next
    fix t assume "t \<in> set (timers ?s')"
    then consider "t \<in> set (timers s)" "Some (timer_id t) \<noteq> handles s (snd c)" | "t = ?new"
      by (auto simp: f)
    then show "\<exists>u h. (timer_model t, u) \<in> set (model_ids ?s')
        \<and> listener ?s' u = Some (timer_model t, h) \<and> handles ?s' h = Some (timer_id t)"
    proof cases
      case 1
      from wt 1(1) obtain u h where m: "(timer_model t, u) \<in> set (model_ids s)"
        "listener s u = Some (timer_model t, h)" "handles s h = Some (timer_id t)"
        by (rule wf_timersD)
      with 1 have "h \<noteq> snd c" by auto
      with m show ?thesis by (intro exI [of _ u] exI [of _ h]) (simp_all add: f)
    next
      case 2
      from wl c obtain u where m: "(fst c, u) \<in> set (model_ids s)" "listener s u = Some c"
        by (auto elim: wf_listenersD1)
      with 2 show ?thesis by (intro exI [of _ u] exI [of _ "snd c"]) (simp_all add: f)
    qed
  qed
  ultimately show ?thesis by (simp add: wf_world_def)
qed

lemma wf_fold_changeContent_callback:
  "wf_world s \<Longrightarrow> set cs \<subseteq> set (contentListeners s) \<Longrightarrow>
   wf_world (fold changeContent_callback cs s)"
  by (induction cs arbitrary: s) (simp_all add: wf_changeContent_callback)

lemma fold_changeContent_callback_fields [simp]:
  "models (fold changeContent_callback cs s) = models s"
  "markers (fold changeContent_callback cs s) = markers s"
  "registered (fold changeContent_callback cs s) = registered s"
  "now (fold changeContent_callback cs s) = now s"
  "contentListeners (fold changeContent_callback cs s) = contentListeners s"
  "listener (fold changeContent_callback cs s) = listener s"
  "uncaught (fold changeContent_callback cs s) = uncaught s"
  "tasks (fold changeContent_callback cs s) = tasks s"
  by (induction cs arbitrary: s) simp_all

lemma getModel_Some:
  "getModel u s = Some m \<Longrightarrow> m \<in> set (models s) \<and> uri m = u"
  by (auto simp: getModel_def find_Some_iff)

lemma getModel_None: "getModel u s = None \<longleftrightarrow> u \<notin> snd ` set (model_ids s)"
  by (auto simp: getModel_def find_None_iff model_ids_def image_iff)

lemma getModel_ids: "getModel u s = Some m \<Longrightarrow> (mid m, u) \<in> set (model_ids s)"
  by (auto simp: model_ids_def dest!: getModel_Some)

lemma wf_models_inj_mid: "wf_models s \<Longrightarrow> inj_on mid (set (models s))"
  unfolding wf_models_def model_ids_def by (simp add: distinct_map comp_def)

lemma model_ids_replace:
  assumes "wf_models s" "old \<in> set (models s)" "mid m' = mid old" "uri m' = uri old"
  shows "model_ids (s\<lparr>models := map (\<lambda>m. if mid m = mid old then m' else m) (models s)\<rparr>)
         = model_ids s"
proof -
  have "\<And>m. m \<in> set (models s) \<Longrightarrow> mid m = mid old \<Longrightarrow> m = old"
    using wf_models_inj_mid [OF assms(1)] assms(2) by (auto dest: inj_onD)
  then have "map (\<lambda>m. (mid m, uri m)) (map (\<lambda>m. if mid m = mid old then m' else m) (models s))
      = map (\<lambda>m. (mid m, uri m)) (models s)"
    using assms(3,4) by (auto simp: comp_def)
  then show ?thesis by (simp add: model_ids_def)
qed

lemma wf_world_replace:
  assumes "wf_world s" "old \<in> set (models s)" "mid m' = mid old" "uri m' = uri old"
  shows "wf_world (s\<lparr>models := map (\<lambda>m. if mid m = mid old then m' else m) (models s)\<rparr>)"
proof -
  let ?s1 = "s\<lparr>models := map (\<lambda>m. if mid m = mid old then m' else m) (models s)\<rparr>"
  from assms have ids: "model_ids ?s1 = model_ids s"
    by (intro model_ids_replace) (simp_all add: wf_world_def)
  have "wf_world ?s1 = wf_world s" by (rule wf_world_cong) (simp_all add: ids)
  with assms show ?thesis by simp
qed

lemma wf_change_content: "wf_world s \<Longrightarrow> wf_world (change_content u ls s)"
proof (cases "getModel u s")
  case None
  then show "wf_world s \<Longrightarrow> ?thesis" by (simp add: change_content_def)
next
  case (Some old)
  assume wf: "wf_world s"
  let ?s1 = "s\<lparr>models := map (\<lambda>m. if mid m = mid old then old\<lparr>linesContent := ls\<rparr> else m) (models s)\<rparr>"
  from wf Some have "wf_world ?s1"
    by (intro wf_world_replace) (simp_all add: getModel_Some)
  then have "wf_world (fold changeContent_callback
      (filter (\<lambda>l. fst l = mid old) (contentListeners ?s1)) ?s1)"
    by (rule wf_fold_changeContent_callback) auto
  then show ?thesis using Some by (simp add: change_content_def Let_def)
qed

section \<open>Timers, tasks and the promise chain\<close>

lemma doValidate_fields [simp]:
  "models (doValidate r c s) = models s"
  "next_mid (doValidate r c s) = next_mid s"
  "markers (doValidate r c s) = markers s"
  "registered (doValidate r c s) = registered s"
  "now (doValidate r c s) = now s"
  "timers (doValidate r c s) = timers s"
  "next_timer (doValidate r c s) = next_timer s"
  "contentListeners (doValidate r c s) = contentListeners s"
  "listener (doValidate r c s) = listener s"
  "handles (doValidate r c s) = handles s"
  "next_handle (doValidate r c s) = next_handle s"
  "uncaught (doValidate r c s) = uncaught s"
  "defaults (doValidate r c s) = defaults s"
  "model_ids (doValidate r c s) = model_ids s"
  "tasks (doValidate r c s) = tasks s @ [\<lparr>resource = r, contents = c, task_state = AwaitWorker\<rparr>]"
  by (simp_all add: doValidate_def model_ids_def)

lemma timer_callback_fields [simp]:
  "models (timer_callback m s) = models s"
  "next_mid (timer_callback m s) = next_mid s"
  "markers (timer_callback m s) = markers s"
  "registered (timer_callback m s) = registered s"
  "now (timer_callback m s) = now s"
  "timers (timer_callback m s) = timers s"
  "next_timer (timer_callback m s) = next_timer s"
  "contentListeners (timer_callback m s) = contentListeners s"
  "listener (timer_callback m s) = listener s"
  "handles (timer_callback m s) = handles s"
  "next_handle (timer_callback m s) = next_handle s"
  "defaults (timer_callback m s) = defaults s"
  "model_ids (timer_callback m s) = model_ids s"
  by (simp_all add: timer_callback_def model_ids_def split: option.splits)

lemma fold_timer_callback_fields [simp]:
  "models (fold (\<lambda>t. timer_callback (timer_model t)) ts s) = models s"
  "next_mid (fold (\<lambda>t. timer_callback (timer_model t)) ts s) = next_mid s"
  "markers (fold (\<lambda>t. timer_callback (timer_model t)) ts s) = markers s"
  "registered (fold (\<lambda>t. timer_callback (timer_model t)) ts s) = registered s"
  "now (fold (\<lambda>t. timer_callback (timer_model t)) ts s) = now s"
  "timers (fold (\<lambda>t. timer_callback (timer_model t)) ts s) = timers s"
  "next_timer (fold (\<lambda>t. timer_callback (timer_model t)) ts s) = next_timer s"
  "contentListeners (fold (\<lambda>t. timer_callback (timer_model t)) ts s) = contentListeners s"
  "listener (fold (\<lambda>t. timer_callback (timer_model t)) ts s) = listener s"
  "handles (fold (\<lambda>t. timer_callback (timer_model t)) ts s) = handles s"
  "next_handle (fold (\<lambda>t. timer_callback (timer_model t)) ts s) = next_handle s"
  "defaults (fold (\<lambda>t. timer_callback (timer_model t)) ts s) = defaults s"
  "model_ids (fold (\<lambda>t. timer_callback (timer_model t)) ts s) = model_ids s"
  by (induction ts arbitrary: s) simp_all

lemma wf_timers_filter:
  assumes "wf_world s"
  shows "wf_world (s\<lparr>now := n, timers := filter P (timers s)\<rparr>)"
proof -
  from assms have "wf_timers (s\<lparr>now := n, timers := filter P (timers s)\<rparr>)"
    by (auto simp: wf_world_def wf_timers_def model_ids_def distinct_map_filter)
  with assms show ?thesis
    by (simp add: wf_world_def wf_models_def wf_listeners_def model_ids_def)
qed

lemma advance_fields [simp]:
  "models (advance d s) = models s"
  "markers (advance d s) = markers s"
  "registered (advance d s) = registered s"
  "now (advance d s) = now s + d"
  "timers (advance d s) = filter (\<lambda>t. \<not> due t \<le> now s + d) (timers s)"
  "contentListeners (advance d s) = contentListeners s"
  "listener (advance d s) = listener s"
  "handles (advance d s) = handles s"
  "defaults (advance d s) = defaults s"
  by (simp_all add: advance_def Let_def)

lemma wf_advance: "wf_world s \<Longrightarrow> wf_world (advance d s)"
proof -
  assume wf: "wf_world s"
  let ?s1 = "s\<lparr>now := now s + d, timers := filter (\<lambda>t. \<not> due t \<le> now s + d) (timers s)\<rparr>"
  have "wf_world (advance d s) = wf_world ?s1"
    by (rule wf_world_cong) (simp_all add: advance_def Let_def)
  with wf_timers_filter [OF wf] show ?thesis by simp
qed

lemma set_task_state_fields [simp]:
  "models (set_task_state k st s) = models s"
  "next_mid (set_task_state k st s) = next_mid s"
  "markers (set_task_state k st s) = markers s"
  "registered (set_task_state k st s) = registered s"
  "now (set_task_state k st s) = now s"
  "timers (set_task_state k st s) = timers s"
  "next_timer (set_task_state k st s) = next_timer s"
  "contentListeners (set_task_state k st s) = contentListeners s"
  "listener (set_task_state k st s) = listener s"
  "handles (set_task_state k st s) = handles s"
  "next_handle (set_task_state k st s) = next_handle s"
  "uncaught (set_task_state k st s) = uncaught s"
  "defaults (set_task_state k st s) = defaults s"
  "model_ids (set_task_state k st s) = model_ids s"
  "length (tasks (set_task_state k st s)) = length (tasks s)"
  by (simp_all add: set_task_state_def model_ids_def)

lemma finish_chain_rejected [simp]:
  "finish_chain cfg k (Rejected e) s = set_task_state k Settled s"
  by (simp add: finish_chain_def then_fulfilled_def then_rejected_def error_callback_def)

lemma finish_chain_null [simp]:
  "finish_chain cfg k (Fulfilled None) s = set_task_state k Settled s"
  by (simp add: finish_chain_def then_fulfilled_def then_rejected_def publish_callback_def)

lemma finish_chain_disposed:
  "getModel (resource (tasks s ! k)) s = None \<Longrightarrow>
   finish_chain cfg k (Fulfilled (Some dss)) s = set_task_state k Settled s"
  by (simp add: finish_chain_def then_fulfilled_def then_rejected_def publish_callback_def)

lemma finish_chain_publish:
  "getModel (resource (tasks s ! k)) s = Some model \<Longrightarrow>
   finish_chain cfg k (Fulfilled (Some dss)) s =
     set_task_state k Settled
       (setModelMarkers model (selector cfg)
          (map (convertDiagnostics (categories cfg) (resource (tasks s ! k)))
               (foldl (\<lambda>p c. c @ p) [] dss)) s)"
  by (simp add: finish_chain_def then_fulfilled_def then_rejected_def publish_callback_def Let_def)

lemma finish_chain_cases:
  obtains "finish_chain cfg k p s = set_task_state k Settled s"
  | model ms where "finish_chain cfg k p s =
      set_task_state k Settled (setModelMarkers model (selector cfg) ms s)"
proof (cases p)
  case (Rejected e)
  then show ?thesis using that(1) by simp
next
  case (Fulfilled v)
  show ?thesis
  proof (cases v)
    case None
    with Fulfilled show ?thesis using that(1) by simp
  next
    case (Some dss)
    show ?thesis
    proof (cases "getModel (resource (tasks s ! k)) s")
      case None
      with Some Fulfilled show ?thesis using that(1) by (simp add: finish_chain_disposed)
    next
      case (Some model)
      with \<open>v = Some dss\<close> Fulfilled show ?thesis using that(2) by (simp add: finish_chain_publish)
    qed
  qed
qed

lemma setModelMarkers_fields [simp]:
  "models (setModelMarkers m ow ms s) = models s"
  "next_mid (setModelMarkers m ow ms s) = next_mid s"
  "registered (setModelMarkers m ow ms s) = registered s"
  "now (setModelMarkers m ow ms s) = now s"
  "timers (setModelMarkers m ow ms s) = timers s"
  "next_timer (setModelMarkers m ow ms s) = next_timer s"
  "contentListeners (setModelMarkers m ow ms s) = contentListeners s"
  "listener (setModelMarkers m ow ms s) = listener s"
  "handles (setModelMarkers m ow ms s) = handles s"
  "next_handle (setModelMarkers m ow ms s) = next_handle s"
  "uncaught (setModelMarkers m ow ms s) = uncaught s"
  "defaults (setModelMarkers m ow ms s) = defaults s"
  "tasks (setModelMarkers m ow ms s) = tasks s"
  "model_ids (setModelMarkers m ow ms s) = model_ids s"
  by (simp_all add: setModelMarkers_def model_ids_def)

lemma finish_chain_fields [simp]:
  "models (finish_chain cfg k p s) = models s"
  "next_mid (finish_chain cfg k p s) = next_mid s"
  "registered (finish_chain cfg k p s) = registered s"
  "now (finish_chain cfg k p s) = now s"
  "timers (finish_chain cfg k p s) = timers s"
  "next_timer (finish_chain cfg k p s) = next_timer s"
  "contentListeners (finish_chain cfg k p s) = contentListeners s"
  "listener (finish_chain cfg k p s) = listener s"
  "handles (finish_chain cfg k p s) = handles s"
  "next_handle (finish_chain cfg k p s) = next_handle s"
  "uncaught (finish_chain cfg k p s) = uncaught s"
  "defaults (finish_chain cfg k p s) = defaults s"
  "model_ids (finish_chain cfg k p s) = model_ids s"
  "length (tasks (finish_chain cfg k p s)) = length (tasks s)"
  by (rule finish_chain_cases [of cfg k p s]; simp)+

lemma worker_settled_fields [simp]:
  "models (worker_settled cfg k p s) = models s"
  "next_mid (worker_settled cfg k p s) = next_mid s"
  "registered (worker_settled cfg k p s) = registered s"
  "now (worker_settled cfg k p s) = now s"
  "timers (worker_settled cfg k p s) = timers s"
  "next_timer (worker_settled cfg k p s) = next_timer s"
  "contentListeners (worker_settled cfg k p s) = contentListeners s"
  "listener (worker_settled cfg k p s) = listener s"
  "handles (worker_settled cfg k p s) = handles s"
  "next_handle (worker_settled cfg k p s) = next_handle s"
  "uncaught (worker_settled cfg k p s) = uncaught s"
  "defaults (worker_settled cfg k p s) = defaults s"
  "model_ids (worker_settled cfg k p s) = model_ids s"
  "length (tasks (worker_settled cfg k p s)) = length (tasks s)"
  by (simp_all add: worker_settled_def split: Settled.splits)

lemma diagnostics_settled_fields [simp]:
  "models (diagnostics_settled cfg k p s) = models s"
  "next_mid (diagnostics_settled cfg k p s) = next_mid s"
  "registered (diagnostics_settled cfg k p s) = registered s"
  "now (diagnostics_settled cfg k p s) = now s"
  "timers (diagnostics_settled cfg k p s) = timers s"
  "next_timer (diagnostics_settled cfg k p s) = next_timer s"
  "contentListeners (diagnostics_settled cfg k p s) = contentListeners s"
  "listener (diagnostics_settled cfg k p s) = listener s"
  "handles (diagnostics_settled cfg k p s) = handles s"
  "next_handle (diagnostics_settled cfg k p s) = next_handle s"
  "uncaught (diagnostics_settled cfg k p s) = uncaught s"
  "defaults (diagnostics_settled cfg k p s) = defaults s"
  "model_ids (diagnostics_settled cfg k p s) = model_ids s"
  "length (tasks (diagnostics_settled cfg k p s)) = length (tasks s)"
  by (simp_all add: diagnostics_settled_def split: Settled.splits)

lemma wf_worker_settled: "wf_world (worker_settled cfg k p s) = wf_world s"
  by (rule wf_world_cong) simp_all

lemma wf_diagnostics_settled: "wf_world (diagnostics_settled cfg k p s) = wf_world s"
  by (rule wf_world_cong) simp_all

section \<open>Every event preserves the invariant\<close>

lemma listener_onModelAdd:
  "listener (onModelAdd cfg model s) =
     (if modeId model = selector cfg
      then (listener s)(uri model \<mapsto> (mid model, next_handle s)) else listener s)"
  by (simp add: onModelAdd_other onModelAdd_tracked)

lemma wf_listener_None:
  "wf_world s \<Longrightarrow> getModel u s = None \<Longrightarrow> listener s u = None"
proof (rule ccontr)
  assume wf: "wf_world s" and n: "getModel u s = None" and "listener s u \<noteq> None"
  then obtain l where "listener s u = Some l" by auto
  with wf have "(fst l, u) \<in> set (model_ids s)" by (auto simp: wf_world_def dest: wf_listenersD2)
  with n show False by (force simp: getModel_None)
qed

lemma wf_add_model:
  assumes wf: "wf_world s" and new: "getModel u s = None" and m: "mid model = next_mid s" "uri model = u"
  shows "wf_world (s\<lparr>models := models s @ [model], next_mid := Suc (next_mid s)\<rparr>)"
proof -
  let ?s' = "s\<lparr>models := models s @ [model], next_mid := Suc (next_mid s)\<rparr>"
  from wf have wm: "wf_models s" and wt: "wf_timers s" and wl: "wf_listeners s"
    by (simp_all add: wf_world_def)
  have ids: "model_ids ?s' = model_ids s @ [(next_mid s, u)]" by (simp add: model_ids_def m)
  have "wf_models ?s'"
    using wm new by (auto simp: wf_models_def ids getModel_None less_Suc_eq)
  moreover have "wf_timers ?s'"
    using wt unfolding wf_timers_def ids by (simp; blast)
  moreover have "wf_listeners ?s'"
    using wl unfolding wf_listeners_def ids by (simp; blast)
  ultimately show ?thesis by (simp add: wf_world_def)
qed

lemma inv_create_model: "adapter_inv s \<Longrightarrow> adapter_inv (create_model cfg u mode ls s)"
proof (cases "getModel u s")
  case (Some old)
  then show "adapter_inv s \<Longrightarrow> ?thesis" by (simp add: create_model_def)
next
  case None
  assume inv: "adapter_inv s"
  then have wf: "wf_world s" by (simp add: adapter_inv_def)
  let ?model = "\<lparr>mid = next_mid s, uri = u, modeId = mode, linesContent = ls\<rparr>"
  let ?s1 = "s\<lparr>models := models s @ [?model], next_mid := Suc (next_mid s)\<rparr>"
  have wf1: "wf_world ?s1" using wf None by (rule wf_add_model) simp_all
  have free: "listener ?s1 (uri ?model) = None" using wf_listener_None [OF wf None] by simp
  have mem: "(mid ?model, uri ?model) \<in> set (model_ids ?s1)" by (simp add: model_ids_def)
  have wf2: "wf_world (onModelAdd cfg ?model ?s1)" using wf1 mem free by (rule wf_onModelAdd)
  show ?thesis
  proof (cases "registered s")
    case True
    with wf2 None show ?thesis by (simp add: create_model_def adapter_inv_def Let_def)
  next
    case False
    with wf1 inv None show ?thesis by (simp add: create_model_def adapter_inv_def Let_def)
  qed
qed

lemma wf_remove_model:
  assumes wf: "wf_world s" and mem: "(i, u) \<in> set (model_ids s)" and free: "listener s u = None"
  shows "wf_world (s\<lparr>models := filter (\<lambda>m. mid m \<noteq> i) (models s),
                     contentListeners := filter (\<lambda>l. fst l \<noteq> i) (contentListeners s)\<rparr>)"
proof -
  let ?s' = "s\<lparr>models := filter (\<lambda>m. mid m \<noteq> i) (models s),
                contentListeners := filter (\<lambda>l. fst l \<noteq> i) (contentListeners s)\<rparr>"
  from wf have wm: "wf_models s" and wt: "wf_timers s" and wl: "wf_listeners s"
    by (simp_all add: wf_world_def)
  have ids: "model_ids ?s' = filter (\<lambda>p. fst p \<noteq> i) (model_ids s)"
    by (simp add: model_ids_def filter_map comp_def)
  have keep: "(j, u') \<in> set (model_ids ?s')" if "(j, u') \<in> set (model_ids s)" "listener s u' \<noteq> None"
    for j u'
  proof -
    from that free have "u' \<noteq> u" by auto
    with wm mem that(1) have "j \<noteq> i" by (auto dest: same_mid_same_uri)
    with that(1) show ?thesis by (simp add: ids)
  qed
  have "wf_models ?s'"
    using wm by (auto simp: wf_models_def ids distinct_map_filter)
  moreover have "wf_timers ?s'"
    unfolding wf_timers_def
  proof (intro conjI ballI)
    show "distinct (map timer_id (timers ?s'))" using wt by (simp add: wf_timers_def)
  next
    fix t assume t: "t \<in> set (timers ?s')"
    with wt show "timer_id t < next_timer ?s'" by (simp add: wf_timers_def)
    from t have "t \<in> set (timers s)" by simp
    with wt obtain u' h where m: "(timer_model t, u') \<in> set (model_ids s)"
      "listener s u' = Some (timer_model t, h)" "handles s h = Some (timer_id t)"
      by (rule wf_timersD)
    with keep [of "timer_model t" u'] show "\<exists>u h. (timer_model t, u) \<in> set (model_ids ?s')
        \<and> listener ?s' u = Some (timer_model t, h) \<and> handles ?s' h = Some (timer_id t)"
      by (intro exI [of _ u'] exI [of _ h]) simp_all
  qed
  moreover have "wf_listeners ?s'"
    unfolding wf_listeners_def
  proof (intro conjI ballI allI impI)
    show "distinct (contentListeners ?s')" using wl by (simp add: wf_listeners_def)
  next
    fix l assume "l \<in> set (contentListeners ?s')"
    then have "l \<in> set (contentListeners s)" by simp
    with wl obtain u' where m: "(fst l, u') \<in> set (model_ids s)" "listener s u' = Some l"
      by (auto elim: wf_listenersD1)
    with keep [of "fst l" u'] show "\<exists>u. (fst l, u) \<in> set (model_ids ?s') \<and> listener ?s' u = Some l"
      by (intro exI [of _ u']) simp_all
  next
    fix u' l assume "listener ?s' u' = Some l"
    then have a: "listener s u' = Some l" by simp
    note b = wf_listenersD2 [OF wl a]
    from keep [of "fst l" u'] a b show "(fst l, u') \<in> set (model_ids ?s')" by simp
    then have "fst l \<noteq> i" by (simp add: ids)
    with b show "l \<in> set (contentListeners ?s')" by simp
    from b show "snd l < next_handle ?s'" by simp
  qed
  ultimately show ?thesis by (simp add: wf_world_def)
qed

lemma inv_dispose_model: "adapter_inv s \<Longrightarrow> adapter_inv (dispose_model cfg u s)"
proof (cases "getModel u s")
  case None
  then show "adapter_inv s \<Longrightarrow> ?thesis" by (simp add: dispose_model_def)
next
  case (Some model)
  assume inv: "adapter_inv s"
  then have wf: "wf_world s" by (simp add: adapter_inv_def)
  let ?s1 = "if registered s then onModelRemoved cfg model s else s"
  from Some have um: "uri model = u" by (simp add: getModel_Some)
  have wf1: "wf_world ?s1" using wf by (simp add: wf_onModelRemoved)
  have mem: "(mid model, u) \<in> set (model_ids ?s1)" using getModel_ids [OF Some] by simp
  have free: "listener ?s1 u = None" using inv by (auto simp: adapter_inv_def um)
  have "wf_world (?s1\<lparr>models := filter (\<lambda>m. mid m \<noteq> mid model) (models ?s1),
      contentListeners := filter (\<lambda>l. fst l \<noteq> mid model) (contentListeners ?s1)\<rparr>)"
    using wf1 mem free by (rule wf_remove_model)
  moreover have "\<not> registered s \<longrightarrow> listener s = Map.empty" using inv by (simp add: adapter_inv_def)
  ultimately show ?thesis using Some
    by (auto simp: dispose_model_def adapter_inv_def Let_def)
qed

lemma inv_set_model_language: "adapter_inv s \<Longrightarrow> adapter_inv (set_model_language cfg u mode s)"
proof (cases "getModel u s")
  case None
  then show "adapter_inv s \<Longrightarrow> ?thesis" by (simp add: set_model_language_def)
next
  case (Some old)
  assume inv: "adapter_inv s"
  then have wf: "wf_world s" by (simp add: adapter_inv_def)
  let ?model = "old\<lparr>modeId := mode\<rparr>"
  let ?s1 = "s\<lparr>models := map (\<lambda>m. if mid m = mid old then ?model else m) (models s)\<rparr>"
  from wf Some have wf1: "wf_world ?s1"
    by (intro wf_world_replace) (simp_all add: getModel_Some)
  from wf Some have ids: "model_ids ?s1 = model_ids s"
    by (intro model_ids_replace) (simp_all add: getModel_Some wf_world_def)
  have mem: "(mid ?model, uri ?model) \<in> set (model_ids (onModelRemoved cfg ?model ?s1))"
    using getModel_ids [OF Some] Some by (simp add: ids getModel_Some)
  have "wf_world (onModelAdd cfg ?model (onModelRemoved cfg ?model ?s1))"
    using wf_onModelRemoved [OF wf1] mem by (rule wf_onModelAdd) simp
  with wf1 inv Some show ?thesis
    by (auto simp: set_model_language_def adapter_inv_def Let_def)
qed

lemma wf_fold_onModelAdd:
  "wf_world s \<Longrightarrow> distinct (map uri ms) \<Longrightarrow>
   (\<forall>m \<in> set ms. (mid m, uri m) \<in> set (model_ids s) \<and> listener s (uri m) = None) \<Longrightarrow>
   wf_world (fold (onModelAdd cfg) ms s)"
proof (induction ms arbitrary: s)
  case Nil
  then show ?case by simp
next
  case (Cons m ms)
  have "wf_world (onModelAdd cfg m s)" using Cons.prems by (intro wf_onModelAdd) simp_all
  moreover have "distinct (map uri ms)" using Cons.prems by simp
  moreover have "\<forall>m' \<in> set ms. (mid m', uri m') \<in> set (model_ids (onModelAdd cfg m s))
      \<and> listener (onModelAdd cfg m s) (uri m') = None"
    using Cons.prems by (auto simp: listener_onModelAdd image_iff)
  ultimately show ?case using Cons.IH by simp
qed

lemma fold_onModelAdd_registered [simp]:
  "registered (fold (onModelAdd cfg) ms s) = registered s"
  by (induction ms arbitrary: s) simp_all

lemma wf_models_distinct_uri: "wf_models s \<Longrightarrow> distinct (map uri (models s))"
  by (simp add: wf_models_def model_ids_def comp_def)

lemma inv_construct: "adapter_inv s \<Longrightarrow> adapter_inv (construct cfg s)"
proof (cases "registered s")
  case True
  then show "adapter_inv s \<Longrightarrow> ?thesis" by (simp add: construct_def)
next
  case False
  assume inv: "adapter_inv s"
  let ?s1 = "s\<lparr>registered := True\<rparr>"
  have "wf_world ?s1 = wf_world s" by (rule wf_world_cong) (simp_all add: model_ids_def)
  with inv have wf1: "wf_world ?s1" by (simp add: adapter_inv_def)
  have "wf_world (fold (onModelAdd cfg) (models ?s1) ?s1)"
  proof (rule wf_fold_onModelAdd [OF wf1])
    show "distinct (map uri (models ?s1))"
      using inv by (simp add: adapter_inv_def wf_world_def wf_models_distinct_uri)
    show "\<forall>m\<in>set (models ?s1). (mid m, uri m) \<in> set (model_ids ?s1) \<and> listener ?s1 (uri m) = None"
      using inv False by (auto simp: adapter_inv_def model_ids_def)
  qed
  with False show ?thesis by (simp add: construct_def adapter_inv_def)
qed

lemma wf_fold_onModelRemoved:
  "wf_world s \<Longrightarrow> wf_world (fold (onModelRemoved cfg) ms s)"
  by (induction ms arbitrary: s) (simp_all add: wf_onModelRemoved)

lemma fold_onModelRemoved_fields [simp]:
  "registered (fold (onModelRemoved cfg) ms s) = registered s"
  "model_ids (fold (onModelRemoved cfg) ms s) = model_ids s"
  "listener (fold (onModelRemoved cfg) ms s) u = (if u \<in> uri ` set ms then None else listener s u)"
  by (induction ms arbitrary: s) auto

lemma inv_dispose: "adapter_inv s \<Longrightarrow> adapter_inv (dispose cfg s)"
proof (cases "registered s")
  case False
  then show "adapter_inv s \<Longrightarrow> ?thesis" by (simp add: dispose_def)
next
  case True
  assume inv: "adapter_inv s"
  let ?s1 = "s\<lparr>registered := False\<rparr>"
  let ?s2 = "fold (onModelRemoved cfg) (models ?s1) ?s1"
  have "wf_world ?s1 = wf_world s" by (rule wf_world_cong) (simp_all add: model_ids_def)
  with inv have wf1: "wf_world ?s1" by (simp add: adapter_inv_def)
  then have wf2: "wf_world ?s2" by (rule wf_fold_onModelRemoved)
  have "listener ?s2 u = None" for u
  proof (rule ccontr)
    assume "listener ?s2 u \<noteq> None"
    then obtain l where l: "listener ?s2 u = Some l" by auto
    with wf2 have "(fst l, u) \<in> set (model_ids ?s2)" by (auto simp: wf_world_def dest: wf_listenersD2)
    then have "(fst l, u) \<in> set (model_ids ?s1)" by simp
    then have "u \<in> uri ` set (models s)" by (force simp: model_ids_def)
    with l show False by simp
  qed
  then have "listener ?s2 = Map.empty" by (intro ext)
  with wf2 True show ?thesis by (simp add: dispose_def adapter_inv_def)
qed

lemma wf_fold_recompute:
  "wf_world s \<Longrightarrow> (\<forall>m \<in> set ms. (mid m, uri m) \<in> set (model_ids s)) \<Longrightarrow>
   wf_world (fold (\<lambda>model s'. onModelAdd cfg model (onModelRemoved cfg model s')) ms s)"
proof (induction ms arbitrary: s)
  case Nil
  then show ?case by simp
next
  case (Cons m ms)
  have "wf_world (onModelAdd cfg m (onModelRemoved cfg m s))"
    using Cons.prems by (intro wf_onModelAdd wf_onModelRemoved) simp_all
  with Cons.IH Cons.prems show ?case by simp
qed

lemma fold_recompute_registered [simp]:
  "registered (fold (\<lambda>model s'. onModelAdd cfg model (onModelRemoved cfg model s')) ms s)
   = registered s"
  by (induction ms arbitrary: s) simp_all

lemma inv_defaults_changed: "adapter_inv s \<Longrightarrow> adapter_inv (defaults_changed cfg s)"
proof (cases "registered s")
  case False
  then show "adapter_inv s \<Longrightarrow> ?thesis" by (simp add: defaults_changed_def)
next
  case True
  assume inv: "adapter_inv s"
  then have "wf_world (recomputeDiagostics cfg s)"
    unfolding recomputeDiagostics_def
    by (intro wf_fold_recompute) (auto simp: adapter_inv_def model_ids_def)
  with True show ?thesis
    by (simp add: defaults_changed_def adapter_inv_def recomputeDiagostics_def)
qed

lemma inv_call_defaults_setters:
  "adapter_inv s \<Longrightarrow> adapter_inv (call_defaults cfg (setMaximumWorkerIdleTime v) s)"
  "adapter_inv s \<Longrightarrow> adapter_inv (call_defaults cfg (setEagerModelSync b) s)"
proof -
  have c: "wf_world (s\<lparr>defaults := d\<rparr>) = wf_world s" for d
    by (rule wf_world_cong) (simp_all add: model_ids_def)
  show "adapter_inv s \<Longrightarrow> adapter_inv (call_defaults cfg (setMaximumWorkerIdleTime v) s)"
    by (simp add: call_defaults_def setMaximumWorkerIdleTime_def adapter_inv_def c)
  show "adapter_inv s \<Longrightarrow> adapter_inv (call_defaults cfg (setEagerModelSync b) s)"
    by (simp add: call_defaults_def setEagerModelSync_def adapter_inv_def c)
qed

lemma change_content_fields [simp]:
  "registered (change_content u ls s) = registered s"
  "listener (change_content u ls s) = listener s"
  "markers (change_content u ls s) = markers s"
  "tasks (change_content u ls s) = tasks s"
  "uncaught (change_content u ls s) = uncaught s"
  "now (change_content u ls s) = now s"
  "contentListeners (change_content u ls s) = contentListeners s"
  by (simp_all add: change_content_def Let_def split: option.splits)

lemma inv_step: "adapter_inv s \<Longrightarrow> adapter_inv (step cfg e s)"
proof (cases e)
  case (ChangeContent u ls)
  then show "adapter_inv s \<Longrightarrow> ?thesis"
    by (simp add: adapter_inv_def wf_change_content)
next
  case (Advance d)
  then show "adapter_inv s \<Longrightarrow> ?thesis" by (simp add: adapter_inv_def wf_advance)
next
  case (WorkerSettled k p)
  then show "adapter_inv s \<Longrightarrow> ?thesis" by (simp add: adapter_inv_def wf_worker_settled)
next
  case (DiagnosticsSettled k p)
  then show "adapter_inv s \<Longrightarrow> ?thesis" by (simp add: adapter_inv_def wf_diagnostics_settled)
qed (simp_all add: inv_construct inv_dispose inv_create_model inv_dispose_model
      inv_set_model_language inv_defaults_changed inv_call_defaults_setters)

lemma inv_empty_world: "adapter_inv empty_world"
  by (simp add: adapter_inv_def wf_world_def wf_models_def wf_timers_def wf_listeners_def
      model_ids_def empty_world_def)

lemma reachable_inv: "reachable cfg s \<Longrightarrow> adapter_inv s"
  by (induction rule: reachable.induct) (simp_all add: inv_empty_world inv_step)

section \<open>Debouncing\<close>

lemma length_le_one:
  assumes d: "distinct (map f xs)" and e: "\<forall>x \<in> set xs. \<forall>y \<in> set xs. f x = f y"
  shows "length xs \<le> 1"
proof (cases xs)
  case Nil
  then show ?thesis by simp
next
  case (Cons a as)
  show ?thesis
  proof (cases as)
    case Nil
    with Cons show ?thesis by simp
  next
    case (Cons b bs)
    with \<open>xs = a # as\<close> have m: "a \<in> set xs" "b \<in> set xs" by simp_all
    from e m have "f a = f b" by blast
    moreover from d Cons \<open>xs = a # as\<close> have "f a \<noteq> f b" by simp
    ultimately show ?thesis by blast
  qed
qed

lemma pending_at_most_one:
  assumes "wf_world s"
  shows "length (pending_timers i s) \<le> 1"
proof (rule length_le_one [where f = timer_id])
  from assms have wm: "wf_models s" and wt: "wf_timers s" and wl: "wf_listeners s"
    by (simp_all add: wf_world_def)
  show "distinct (map timer_id (pending_timers i s))"
    using wt by (simp add: pending_timers_def wf_timers_def distinct_map_filter)
  show "\<forall>x \<in> set (pending_timers i s). \<forall>y \<in> set (pending_timers i s). timer_id x = timer_id y"
  proof (intro ballI)
    fix x y assume "x \<in> set (pending_timers i s)" "y \<in> set (pending_timers i s)"
    then have x: "x \<in> set (timers s)" "timer_model x = i"
      and y: "y \<in> set (timers s)" "timer_model y = i" by (simp_all add: pending_timers_def)
    from wt x(1) obtain u h where a: "(timer_model x, u) \<in> set (model_ids s)"
      "listener s u = Some (timer_model x, h)" "handles s h = Some (timer_id x)"
      by (rule wf_timersD)
    from wt y(1) obtain u' h' where b: "(timer_model y, u') \<in> set (model_ids s)"
      "listener s u' = Some (timer_model y, h')" "handles s h' = Some (timer_id y)"
      by (rule wf_timersD)
    from wm a(1) b(1) x(2) y(2) have "u = u'" by (auto dest: same_mid_same_uri)
    with a b show "timer_id x = timer_id y" by simp
  qed
qed

lemma tracked_model:
  assumes wf: "wf_world s" and tr: "tracked u s"
  obtains m h where "getModel u s = Some m" "listener s u = Some (mid m, h)"
    "(mid m, h) \<in> set (contentListeners s)" "m \<in> set (models s)" "uri m = u"
proof -
  from wf have wm: "wf_models s" and wl: "wf_listeners s" by (simp_all add: wf_world_def)
  from tr obtain l where l: "listener s u = Some l" by (auto simp: tracked_def)
  note d = wf_listenersD2 [OF wl l]
  from d(3) have "u \<in> snd ` set (model_ids s)" by force
  then have "getModel u s \<noteq> None" by (simp add: getModel_None)
  then obtain m where m: "getModel u s = Some m" by auto
  from wm d(3) getModel_ids [OF m] have "mid m = fst l" by (auto dest: same_uri_same_mid)
  with l have "listener s u = Some (mid m, snd l)" by simp
  moreover from d(2) \<open>mid m = fst l\<close> have "(mid m, snd l) \<in> set (contentListeners s)" by simp
  ultimately show ?thesis using m getModel_Some [OF m] that by blast
qed

lemma listeners_of_model:
  assumes wf: "wf_world s" and m: "getModel u s = Some m" and l: "listener s u = Some (mid m, h)"
  shows "filter (\<lambda>l. fst l = mid m) (contentListeners s) = [(mid m, h)]"
proof -
  from wf have wm: "wf_models s" and wl: "wf_listeners s" by (simp_all add: wf_world_def)
  have mem: "(mid m, h) \<in> set (contentListeners s)" using wf_listenersD2(2) [OF wl l] .
  have all: "\<forall>x \<in> set (filter (\<lambda>l. fst l = mid m) (contentListeners s)). x = (mid m, h)"
  proof
    fix x assume "x \<in> set (filter (\<lambda>l. fst l = mid m) (contentListeners s))"
    then have x: "x \<in> set (contentListeners s)" "fst x = mid m" by simp_all
    with wl obtain u' where u': "(fst x, u') \<in> set (model_ids s)" "listener s u' = Some x"
      by (auto elim: wf_listenersD1)
    from wm u'(1) x(2) getModel_ids [OF m] have "u' = u" by (auto dest: same_mid_same_uri)
    with u' l show "x = (mid m, h)" by simp
  qed
  have dist: "distinct (filter (\<lambda>l. fst l = mid m) (contentListeners s))"
    using wl by (simp add: wf_listeners_def)
  from mem have ne: "(mid m, h) \<in> set (filter (\<lambda>l. fst l = mid m) (contentListeners s))" by simp
  show ?thesis
  proof (cases "filter (\<lambda>l. fst l = mid m) (contentListeners s)")
    case Nil
    with ne show ?thesis by simp
  next
    case (Cons a as)
    with all dist have a: "a = (mid m, h)" and as: "\<forall>x \<in> set as. x = a" "a \<notin> set as"
      by auto
    from as have "as = []" by (cases as) auto
    with a Cons show ?thesis by simp
  qed
qed

lemma pending_changeContent_callback:
  assumes wf: "wf_world s" and m: "getModel u s = Some m" and l: "listener s u = Some (mid m, h)"
  shows "pending_timers (mid m) (changeContent_callback (mid m, h) s) =
           [\<lparr>timer_id = next_timer s, due = now s + 500, timer_model = mid m\<rparr>]"
proof -
  from wf have wm: "wf_models s" and wt: "wf_timers s" by (simp_all add: wf_world_def)
  have "filter (\<lambda>t. timer_model t = mid m)
          (filter (\<lambda>t. Some (timer_id t) \<noteq> handles s h) (timers s)) = []"
  proof (rule filter_False, intro ballI notI)
    fix t assume "t \<in> set (filter (\<lambda>t. Some (timer_id t) \<noteq> handles s h) (timers s))"
      and tm: "timer_model t = mid m"
    then have t: "t \<in> set (timers s)" "Some (timer_id t) \<noteq> handles s h" by simp_all
    from wt t(1) obtain u' h' where a: "(timer_model t, u') \<in> set (model_ids s)"
      "listener s u' = Some (timer_model t, h')" "handles s h' = Some (timer_id t)"
      by (rule wf_timersD)
    from wm a(1) tm getModel_ids [OF m] have "u' = u" by (auto dest: same_mid_same_uri)
    with a l have "h' = h" by simp
    with a t show False by simp
  qed
  then show ?thesis by (simp add: pending_timers_def changeContent_callback_eq)
qed

lemma change_content_tracked:
  assumes wf: "wf_world s" and m: "getModel u s = Some m" and l: "listener s u = Some (mid m, h)"
  shows "change_content u ls s =
     changeContent_callback (mid m, h)
       (s\<lparr>models := map (\<lambda>x. if mid x = mid m then m\<lparr>linesContent := ls\<rparr> else x) (models s)\<rparr>)"
  using m listeners_of_model [OF wf m l] by (simp add: change_content_def Let_def)

lemma getModel_replace:
  assumes wm: "wf_models s" and m: "getModel u s = Some m" and u: "uri m' = uri m"
  shows "getModel u (s\<lparr>models := map (\<lambda>x. if mid x = mid m then m' else x) (models s)\<rparr>) = Some m'"
proof -
  have same: "\<And>x. x \<in> set (models s) \<Longrightarrow> mid x = mid m \<longleftrightarrow> x = m"
    using wf_models_inj_mid [OF wm] getModel_Some [OF m] by (auto dest: inj_onD)
  have uniq: "\<And>x. x \<in> set (models s) \<Longrightarrow> uri x = u \<longleftrightarrow> x = m"
    using wf_models_distinct_uri [OF wm] getModel_Some [OF m]
    by (auto simp: distinct_map dest: inj_onD)
  have "find (\<lambda>x. uri x = u) (map (\<lambda>x. if mid x = mid m then m' else x) ms) = Some m'"
    if "set ms \<subseteq> set (models s)" "m \<in> set ms" for ms
    using that
  proof (induction ms)
    case Nil then show ?case by simp
  next
    case (Cons a ms)
    show ?case
    proof (cases "a = m")
      case True
      with u getModel_Some [OF m] show ?thesis by simp
    next
      case False
      with Cons.prems same [of a] uniq [of a] have "mid a \<noteq> mid m" "uri a \<noteq> u" by auto
      with Cons False show ?thesis by simp
    qed
  qed
  from this [of "models s"] getModel_Some [OF m] show ?thesis by (simp add: getModel_def)
qed

lemma armed_after_edit:
  assumes inv: "adapter_inv s" and tr: "tracked u s"
  shows "armed u ls (now s + 500) (change_content u ls s)"
proof -
  from inv have wf: "wf_world s" by (simp add: adapter_inv_def)
  from wf tr obtain m h where m: "getModel u s = Some m" "listener s u = Some (mid m, h)"
    "m \<in> set (models s)" "uri m = u"
    by (rule tracked_model)
  let ?m' = "m\<lparr>linesContent := ls\<rparr>"
  let ?s1 = "s\<lparr>models := map (\<lambda>x. if mid x = mid m then ?m' else x) (models s)\<rparr>"
  have eq: "change_content u ls s = changeContent_callback (mid m, h) ?s1"
    using wf m(1,2) by (rule change_content_tracked)
  have wf1: "wf_world ?s1" using wf m(3) by (intro wf_world_replace) simp_all
  have g1: "getModel u ?s1 = Some ?m'"
    using wf m(1) by (intro getModel_replace) (simp_all add: wf_world_def)
  have "pending_timers (mid ?m') (changeContent_callback (mid ?m', h) ?s1) =
      [\<lparr>timer_id = next_timer ?s1, due = now ?s1 + 500, timer_model = mid ?m'\<rparr>]"
    using wf1 g1 by (rule pending_changeContent_callback) (simp add: m)
  then have p: "pending_timers (mid ?m') (change_content u ls s) =
      [\<lparr>timer_id = next_timer s, due = now s + 500, timer_model = mid m\<rparr>]"
    by (simp add: eq)
  have g: "getModel u (change_content u ls s) = Some ?m'"
    using g1 by (simp add: eq getModel_def)
  have "adapter_inv (change_content u ls s)"
    using inv_step [OF inv, of cfg "ChangeContent u ls"] by simp
  moreover have "tracked u (change_content u ls s)" using tr by (simp add: tracked_def)
  ultimately show ?thesis using g p by (auto simp: armed_def)
qed

lemma model_object_timer_callback [simp]:
  "model_object i (timer_callback j s) = model_object i s"
  by (simp add: model_object_def)

lemma tasks_fold_timer_callback:
  "(\<forall>t \<in> set ts. model_object (timer_model t) s \<noteq> None) \<Longrightarrow>
   tasks (fold (\<lambda>t. timer_callback (timer_model t)) ts s) =
     tasks s @ map (\<lambda>t. new_task (uri (the (model_object (timer_model t) s)))
                           (linesContent (the (model_object (timer_model t) s)))) ts"
proof (induction ts arbitrary: s)
  case Nil
  then show ?case by simp
next
  case (Cons t ts)
  from Cons.prems obtain m where m: "model_object (timer_model t) s = Some m" by auto
  have "\<forall>t' \<in> set ts. model_object (timer_model t') (timer_callback (timer_model t) s) \<noteq> None"
    using Cons.prems by simp
  from Cons.IH [OF this]
  have "tasks (fold (\<lambda>t. timer_callback (timer_model t)) ts (timer_callback (timer_model t) s)) =
     tasks (timer_callback (timer_model t) s)
       @ map (\<lambda>t. new_task (uri (the (model_object (timer_model t) s)))
                           (linesContent (the (model_object (timer_model t) s)))) ts"
    by simp
  moreover have "tasks (timer_callback (timer_model t) s) =
      tasks s @ [new_task (uri m) (linesContent m)]"
    using m by (simp add: timer_callback_def new_task_def)
  ultimately show ?case using m by simp
qed

lemma model_object_Some:
  assumes wm: "wf_models s" and mem: "(i, u) \<in> set (model_ids s)"
  obtains m where "model_object i s = Some m" "mid m = i" "uri m = u"
proof -
  from mem obtain m where m: "m \<in> set (models s)" "mid m = i" "uri m = u"
    by (auto simp: model_ids_def)
  then have "model_object i s \<noteq> None" by (auto simp: model_object_def find_None_iff)
  then obtain m' where m': "model_object i s = Some m'" by auto
  then have "m' \<in> set (models s)" "mid m' = i"
    by (auto simp: model_object_def find_Some_iff)
  with wf_models_inj_mid [OF wm] m have "m' = m" by (auto dest: inj_onD)
  with m m' that show ?thesis by simp
qed

lemma model_object_getModel:
  assumes wm: "wf_models s" and m: "getModel u s = Some m"
  shows "model_object (mid m) s = Some m"
proof -
  from wm getModel_ids [OF m] obtain m' where m': "model_object (mid m) s = Some m'"
    "mid m' = mid m" by (rule model_object_Some)
  then have "m' \<in> set (models s)" by (auto simp: model_object_def find_Some_iff)
  with wf_models_inj_mid [OF wm] getModel_Some [OF m] m'(2) have "m' = m" by (auto dest: inj_onD)
  with m' show ?thesis by simp
qed

lemma advance_tasks:
  assumes wf: "wf_world s" and m: "getModel u s = Some m"
  shows "take (length (tasks s)) (tasks (advance d s)) = tasks s"
    and "filter (\<lambda>k. resource k = u) (drop (length (tasks s)) (tasks (advance d s))) =
         map (\<lambda>t. new_task u (linesContent m))
             (filter (\<lambda>t. due t \<le> now s + d) (pending_timers (mid m) s))"
proof -
  from wf have wm: "wf_models s" and wt: "wf_timers s" by (simp_all add: wf_world_def)
  let ?dues = "filter (\<lambda>t. due t \<le> now s + d) (timers s)"
  let ?s1 = "s\<lparr>now := now s + d, timers := filter (\<lambda>t. \<not> due t \<le> now s + d) (timers s)\<rparr>"
  let ?fired = "\<lambda>t. new_task (uri (the (model_object (timer_model t) s)))
                           (linesContent (the (model_object (timer_model t) s)))"
  have mo: "model_object i ?s1 = model_object i s" for i by (simp add: model_object_def)
  have live: "\<forall>t \<in> set (timers s). model_object (timer_model t) s \<noteq> None"
  proof
    fix t assume "t \<in> set (timers s)"
    with wt obtain u' h where "(timer_model t, u') \<in> set (model_ids s)" by (rule wf_timersD)
    with wm obtain m' where "model_object (timer_model t) s = Some m'" by (rule model_object_Some)
    then show "model_object (timer_model t) s \<noteq> None" by simp
  qed
  then have "\<forall>t \<in> set ?dues. model_object (timer_model t) ?s1 \<noteq> None" by (simp add: mo)
  from tasks_fold_timer_callback [OF this]
  have t: "tasks (advance d s) = tasks s @ map ?fired ?dues"
    by (simp add: advance_def Let_def mo)
  then show "take (length (tasks s)) (tasks (advance d s)) = tasks s" by simp
  have res: "resource (?fired t) = u \<longleftrightarrow> timer_model t = mid m" if "t \<in> set (timers s)" for t
  proof -
    from wt that obtain u' h where a: "(timer_model t, u') \<in> set (model_ids s)" by (rule wf_timersD)
    with wm obtain m' where m': "model_object (timer_model t) s = Some m'"
      "mid m' = timer_model t" "uri m' = u'" by (rule model_object_Some)
    have "u' = u \<longleftrightarrow> timer_model t = mid m"
      using wm a getModel_ids [OF m] by (auto dest: same_mid_same_uri same_uri_same_mid)
    with m' show ?thesis by (simp add: new_task_def)
  qed
  have "filter (\<lambda>k. resource k = u) (map ?fired ?dues) =
      map ?fired (filter (\<lambda>t. timer_model t = mid m) ?dues)"
    by (simp add: filter_map comp_def) (rule arg_cong [where f = "map ?fired"],
        rule filter_cong, auto simp: res)
  also have "filter (\<lambda>t. timer_model t = mid m) ?dues =
      filter (\<lambda>t. due t \<le> now s + d) (pending_timers (mid m) s)"
    by (simp add: pending_timers_def conj_commute)
  also have "map ?fired \<dots> = map (\<lambda>t. new_task u (linesContent m)) \<dots>"
    using model_object_getModel [OF wm m] getModel_Some [OF m]
    by (intro map_cong) (auto simp: pending_timers_def)
  finally show "filter (\<lambda>k. resource k = u) (drop (length (tasks s)) (tasks (advance d s))) =
         map (\<lambda>t. new_task u (linesContent m))
             (filter (\<lambda>t. due t \<le> now s + d) (pending_timers (mid m) s))"
    by (simp add: t)
qed

lemma getModel_advance [simp]: "getModel u (advance d s) = getModel u s"
  by (simp add: getModel_def)

lemma pending_advance:
  "pending_timers i (advance d s) = filter (\<lambda>t. \<not> due t \<le> now s + d) (pending_timers i s)"
  by (simp add: pending_timers_def conj_commute)

lemma armed_advance_early:
  assumes a: "armed u ls T s" and d: "now s + d < T"
  shows "armed u ls T (advance d s)"
    and "take (length (tasks s)) (tasks (advance d s)) = tasks s"
    and "filter (\<lambda>k. resource k = u) (drop (length (tasks s)) (tasks (advance d s))) = []"
proof -
  from a obtain m t where inv: "adapter_inv s" and tr: "tracked u s"
    and m: "getModel u s = Some m" "linesContent m = ls" "pending_timers (mid m) s = [t]" "due t = T"
    by (auto simp: armed_def)
  from inv have wf: "wf_world s" by (simp add: adapter_inv_def)
  have "adapter_inv (advance d s)" using inv_step [OF inv, of cfg "Advance d"] by simp
  moreover have "tracked u (advance d s)" using tr by (simp add: tracked_def)
  moreover have "pending_timers (mid m) (advance d s) = [t]" using m d by (simp add: pending_advance)
  ultimately show "armed u ls T (advance d s)" using m by (auto simp: armed_def)
  show "take (length (tasks s)) (tasks (advance d s)) = tasks s" using wf m(1) by (rule advance_tasks)
  show "filter (\<lambda>k. resource k = u) (drop (length (tasks s)) (tasks (advance d s))) = []"
    using advance_tasks(2) [OF wf m(1), of d] m d by simp
qed

lemma armed_advance_due:
  assumes a: "armed u ls T s" and d: "T \<le> now s + d"
  shows "take (length (tasks s)) (tasks (advance d s)) = tasks s"
    and "filter (\<lambda>k. resource k = u) (drop (length (tasks s)) (tasks (advance d s))) = [new_task u ls]"
proof -
  from a obtain m t where inv: "adapter_inv s" and tr: "tracked u s"
    and m: "getModel u s = Some m" "linesContent m = ls" "pending_timers (mid m) s = [t]" "due t = T"
    by (auto simp: armed_def)
  from inv have wf: "wf_world s" by (simp add: adapter_inv_def)
  show "take (length (tasks s)) (tasks (advance d s)) = tasks s" using wf m(1) by (rule advance_tasks)
  show "filter (\<lambda>k. resource k = u) (drop (length (tasks s)) (tasks (advance d s))) = [new_task u ls]"
    using advance_tasks(2) [OF wf m(1), of d] m d by simp
qed

lemma armed_tracked: "armed u ls T s \<Longrightarrow> adapter_inv s \<and> tracked u s"
  by (simp add: armed_def)

lemma tasks_extend:
  assumes "take (length (tasks s)) (tasks s1) = tasks s" "take (length (tasks s1)) (tasks s2) = tasks s1"
  shows "take (length (tasks s)) (tasks s2) = tasks s"
    and "drop (length (tasks s)) (tasks s2) =
         drop (length (tasks s)) (tasks s1) @ drop (length (tasks s1)) (tasks s2)"
proof -
  from assms(1) obtain n1 where n1: "tasks s1 = tasks s @ n1"
    by (metis append_take_drop_id)
  from assms(2) obtain n2 where n2: "tasks s2 = tasks s1 @ n2"
    by (metis append_take_drop_id)
  show "take (length (tasks s)) (tasks s2) = tasks s" by (simp add: n1 n2)
  show "drop (length (tasks s)) (tasks s2) =
         drop (length (tasks s)) (tasks s1) @ drop (length (tasks s1)) (tasks s2)"
    by (simp add: n1 n2)
qed

lemma burst_armed:
  assumes "armed u ls (now s + 500) s" and "\<forall>p \<in> set rest. fst p < 500" and "500 \<le> dlast"
  shows "take (length (tasks s)) (tasks (run cfg (burst u rest @ [Advance dlast]) s)) = tasks s
       \<and> filter (\<lambda>k. resource k = u)
           (drop (length (tasks s)) (tasks (run cfg (burst u rest @ [Advance dlast]) s)))
         = [new_task u (last (ls # map snd rest))]"
  using assms
proof (induction rest arbitrary: s ls)
  case Nil
  then show ?case using armed_advance_due [of u ls "now s + 500" s dlast]
    by (simp add: run_def)
next
  case (Cons p rest)
  obtain d ls' where p: "p = (d, ls')" by (cases p)
  let ?s1 = "advance d s"
  let ?s2 = "change_content u ls' ?s1"
  let ?s3 = "run cfg (burst u rest @ [Advance dlast]) ?s2"
  from Cons.prems p have d: "now s + d < now s + 500" by simp
  note e = armed_advance_early [OF Cons.prems(1) d]
  from armed_tracked [OF e(1)] have a2: "armed u ls' (now ?s2 + 500) ?s2"
    using armed_after_edit [of ?s1 u ls'] by simp
  from Cons.prems have "\<forall>p \<in> set rest. fst p < 500" by simp
  from Cons.IH [OF a2 this Cons.prems(3)]
  have ih: "take (length (tasks ?s2)) (tasks ?s3) = tasks ?s2"
    "filter (\<lambda>k. resource k = u) (drop (length (tasks ?s2)) (tasks ?s3))
       = [new_task u (last (ls' # map snd rest))]" by simp_all
  have t12: "tasks ?s2 = tasks ?s1" by simp
  have r: "run cfg (burst u (p # rest) @ [Advance dlast]) s = ?s3" by (simp add: p run_def)
  from tasks_extend [of s ?s1 ?s3] e(2) ih(1) t12
  have x: "take (length (tasks s)) (tasks ?s3) = tasks s"
    "drop (length (tasks s)) (tasks ?s3) =
       drop (length (tasks s)) (tasks ?s1) @ drop (length (tasks ?s1)) (tasks ?s3)" by simp_all
  show ?case unfolding r using x e(3) ih(2) t12 by (simp add: p)
qed

section \<open>Disposed documents\<close>

lemma model_ids_registered [simp]: "model_ids (s\<lparr>registered := b\<rparr>) = model_ids s"
  by (simp add: model_ids_def)

lemma fold_onModelAdd_model_ids [simp]:
  "model_ids (fold (onModelAdd cfg) ms s) = model_ids s"
  by (induction ms arbitrary: s) simp_all

lemma fold_recompute_model_ids [simp]:
  "model_ids (fold (\<lambda>model s'. onModelAdd cfg model (onModelRemoved cfg model s')) ms s)
   = model_ids s"
  by (induction ms arbitrary: s) simp_all

lemma model_ids_create_model:
  "set (model_ids (create_model cfg u' mode ls s)) \<subseteq> insert (next_mid s, u') (set (model_ids s))"
  by (cases "getModel u' s") (auto simp: create_model_def Let_def model_ids_def)

lemma model_ids_dispose_model:
  "set (model_ids (dispose_model cfg u' s)) \<subseteq> set (model_ids s)"
  by (cases "getModel u' s") (auto simp: dispose_model_def Let_def model_ids_def)

lemma model_ids_set_model_language:
  "wf_world s \<Longrightarrow> model_ids (set_model_language cfg u' mode s) = model_ids s"
proof (cases "getModel u' s")
  case None
  then show ?thesis by (simp add: set_model_language_def)
next
  case (Some old)
  assume wf: "wf_world s"
  let ?model = "old\<lparr>modeId := mode\<rparr>"
  let ?s1 = "s\<lparr>models := map (\<lambda>m. if mid m = mid old then ?model else m) (models s)\<rparr>"
  from wf Some have ids: "model_ids ?s1 = model_ids s"
    by (intro model_ids_replace) (simp_all add: getModel_Some wf_world_def)
  with Some show ?thesis by (simp add: set_model_language_def Let_def)
qed

lemma model_ids_change_content:
  "wf_world s \<Longrightarrow> model_ids (change_content u' ls s) = model_ids s"
proof (cases "getModel u' s")
  case None
  then show ?thesis by (simp add: change_content_def)
next
  case (Some old)
  assume wf: "wf_world s"
  let ?model = "old\<lparr>linesContent := ls\<rparr>"
  let ?s1 = "s\<lparr>models := map (\<lambda>m. if mid m = mid old then ?model else m) (models s)\<rparr>"
  from wf Some have ids: "model_ids ?s1 = model_ids s"
    by (intro model_ids_replace) (simp_all add: getModel_Some wf_world_def)
  have "model_ids (change_content u' ls s) = model_ids ?s1"
    using Some by (simp add: change_content_def Let_def model_ids_def)
  with ids show ?thesis by simp
qed

lemma model_ids_advance [simp]: "model_ids (advance d s) = model_ids s"
  by (simp add: model_ids_def)

lemma step_keeps_disposed:
  assumes inv: "adapter_inv s" and gone: "getModel u s = None" and nc: "\<not> creates u e"
  shows "getModel u (step cfg e s) = None"
proof -
  from inv have wf: "wf_world s" by (simp add: adapter_inv_def)
  have "snd ` set (model_ids (step cfg e s)) \<subseteq> snd ` set (model_ids s) \<union> (if creates u e then {u} else {x. x \<noteq> u})"
  proof (cases e)
    case Construct
    then show ?thesis by (simp add: construct_def)
  next
    case Dispose
    then show ?thesis by (simp add: dispose_def)
  next
    case (CreateModel u' mode ls)
    with model_ids_create_model [of cfg u' mode ls s] show ?thesis by auto
  next
    case (DisposeModel u')
    with model_ids_dispose_model [of cfg u' s] show ?thesis by auto
  next
    case (SetModelLanguage u' mode)
    with wf show ?thesis by (simp add: model_ids_set_model_language)
  next
    case (ChangeContent u' ls)
    with wf show ?thesis by (simp add: model_ids_change_content)
  next
    case DefaultsChanged
    then show ?thesis by (simp add: defaults_changed_def recomputeDiagostics_def)
  next
    case (SetMaximumWorkerIdleTime v)
    then show ?thesis by (simp add: call_defaults_def setMaximumWorkerIdleTime_def model_ids_def)
  next
    case (SetEagerModelSync v)
    then show ?thesis by (simp add: call_defaults_def setEagerModelSync_def model_ids_def)
  qed simp_all
  with gone nc show ?thesis by (auto simp: getModel_None)
qed

lemma run_keeps_disposed:
  "adapter_inv s \<Longrightarrow> getModel u s = None \<Longrightarrow> \<forall>e \<in> set es. \<not> creates u e \<Longrightarrow>
   getModel u (run cfg es s) = None"
proof (induction es arbitrary: s)
  case Nil
  then show ?case by (simp add: run_def)
next
  case (Cons e es)
  have "adapter_inv (step cfg e s)" using Cons.prems(1) by (rule inv_step)
  moreover have "getModel u (step cfg e s) = None"
    using Cons.prems by (intro step_keeps_disposed) simp_all
  ultimately have "getModel u (run cfg es (step cfg e s)) = None"
    using Cons.prems by (intro Cons.IH) simp_all
  then show ?case by (simp add: run_def)
qed

lemma getModel_dispose_model:
  assumes wf: "wf_world s"
  shows "getModel u (dispose_model cfg u s) = None"
proof (cases "getModel u s")
  case None
  then show ?thesis by (simp add: dispose_model_def)
next
  case (Some model)
  from wf have wm: "wf_models s" by (simp add: wf_world_def)
  have "\<And>x. x \<in> set (models s) \<Longrightarrow> uri x = u \<Longrightarrow> x = model"
    using wf_models_distinct_uri [OF wm] getModel_Some [OF Some]
    by (auto simp: distinct_map dest: inj_onD)
  then have "\<forall>x \<in> set (filter (\<lambda>m. mid m \<noteq> mid model) (models s)). uri x \<noteq> u" by auto
  then show ?thesis using Some
    by (auto simp: dispose_model_def Let_def getModel_def find_None_iff)
qed

text \<open>
  Claim C2. A validation pass re-checks that a model with the document's uri exists when
  the worker handle resolves, before it requests diagnostics, and again when the
  diagnostics arrive, before it publishes. When no such model exists at either check the
  chain is settled at once: the markers are unchanged, no diagnostics are requested, and
  no error reaches the event loop. From a reachable state, once the document is disposed
  no model has its uri after any further events that do not create it again, so every
  promise of a pass for it that settles in between meets a failing check.
\<close>

theorem disposed_document_not_published:
  "(k < length (tasks s) \<and> getModel (resource (tasks s ! k)) s = None \<longrightarrow>
      (task_state (tasks s ! k) = AwaitWorker \<longrightarrow>
         step cfg (WorkerSettled k (Fulfilled w)) s = set_task_state k Settled s)
    \<and> (task_state (tasks s ! k) = AwaitDiagnostics \<longrightarrow>
         step cfg (DiagnosticsSettled k (Fulfilled ds)) s = set_task_state k Settled s)
    \<and> markers (step cfg (WorkerSettled k (Fulfilled w)) s) = markers s
    \<and> markers (step cfg (DiagnosticsSettled k (Fulfilled ds)) s) = markers s
    \<and> uncaught (step cfg (WorkerSettled k (Fulfilled w)) s) = uncaught s
    \<and> uncaught (step cfg (DiagnosticsSettled k (Fulfilled ds)) s) = uncaught s)
   \<and> (reachable cfg s \<and> (\<forall>e \<in> set es. \<not> creates u e) \<longrightarrow>
        getModel u (run cfg (DisposeModel u # es) s) = None)"
proof -
  have "getModel u (run cfg (DisposeModel u # es) s) = None"
    if r: "reachable cfg s" and es: "\<forall>e \<in> set es. \<not> creates u e"
  proof -
    from r have inv: "adapter_inv s" by (rule reachable_inv)
    then have "adapter_inv (step cfg (DisposeModel u) s)" by (rule inv_step)
    moreover from inv have "getModel u (step cfg (DisposeModel u) s) = None"
      by (simp add: getModel_dispose_model adapter_inv_def)
    ultimately have "getModel u (run cfg es (step cfg (DisposeModel u) s)) = None"
      using es by (rule run_keeps_disposed)
    then show ?thesis by (simp add: run_def)
  qed
  then show ?thesis
    by (simp add: worker_settled_def diagnostics_settled_def finish_chain_disposed)
qed

section \<open>Untracking\<close>

lemma reachable_run: "reachable cfg s \<Longrightarrow> reachable cfg (run cfg es s)"
proof (induction es arbitrary: s)
  case Nil
  then show ?case by (simp add: run_def)
next
  case (Cons e es)
  from Cons.IH [OF reachable_step [OF Cons.prems]] show ?case by (simp add: run_def)
qed

lemma no_pending_untracked:
  assumes wf: "wf_world s" and mem: "(i, u) \<in> set (model_ids s)" and free: "listener s u = None"
  shows "pending_timers i s = []" and "\<forall>l \<in> set (contentListeners s). fst l \<noteq> i"
proof -
  from wf have wm: "wf_models s" and wt: "wf_timers s" and wl: "wf_listeners s"
    by (simp_all add: wf_world_def)
  show "pending_timers i s = []"
    unfolding pending_timers_def
  proof (rule filter_False, intro ballI notI)
    fix t assume t: "t \<in> set (timers s)" "timer_model t = i"
    from wt t(1) obtain u' h where a: "(timer_model t, u') \<in> set (model_ids s)"
      "listener s u' = Some (timer_model t, h)" by (rule wf_timersD)
    from wm a(1) t(2) mem have "u' = u" by (auto dest: same_mid_same_uri)
    with a free show False by simp
  qed
  show "\<forall>l \<in> set (contentListeners s). fst l \<noteq> i"
  proof (intro ballI notI)
    fix l assume l: "l \<in> set (contentListeners s)" "fst l = i"
    with wl obtain u' where a: "(fst l, u') \<in> set (model_ids s)" "listener s u' = Some l"
      by (auto elim: wf_listenersD1)
    from wm a(1) l(2) mem have "u' = u" by (auto dest: same_mid_same_uri)
    with a free show False by simp
  qed
qed

text \<open>
  Claim C5, amended. Untrack of a document clears its markers under the adapter's owner
  tag and removes its entry from the subscription records; the entry's content listener
  is detached and the timer held by its handle is cancelled, so that in a reachable
  state the document has no pending timer and no content listener afterwards. For a
  document that was not tracked, Untrack changes nothing but the document's markers
  under the owner tag, which it clears.
\<close>

theorem untrack_effect:
  "markers (onModelRemoved cfg model s) = (markers s)((uri model, selector cfg) := [])
   \<and> listener (onModelRemoved cfg model s) = (listener s)(uri model := None)
   \<and> (\<forall>d. listener s (uri model) = Some d \<longrightarrow>
         contentListeners (onModelRemoved cfg model s) = filter (\<lambda>l. l \<noteq> d) (contentListeners s)
         \<and> timers (onModelRemoved cfg model s) =
             filter (\<lambda>t. Some (timer_id t) \<noteq> handles s (snd d)) (timers s))
   \<and> (reachable cfg s \<and> model \<in> set (models s) \<longrightarrow>
         pending_timers (mid model) (onModelRemoved cfg model s) = []
         \<and> (\<forall>l \<in> set (contentListeners (onModelRemoved cfg model s)). fst l \<noteq> mid model))
   \<and> (listener s (uri model) = None \<longrightarrow>
         onModelRemoved cfg model s = s\<lparr>markers := (markers s)((uri model, selector cfg) := [])\<rparr>)"
proof -
  have a: "markers (onModelRemoved cfg model s) = (markers s)((uri model, selector cfg) := [])"
    by (cases "listener s (uri model)") (simp_all add: onModelRemoved_untracked onModelRemoved_tracked)
  have b: "pending_timers (mid model) (onModelRemoved cfg model s) = []
      \<and> (\<forall>l \<in> set (contentListeners (onModelRemoved cfg model s)). fst l \<noteq> mid model)"
    if "reachable cfg s" "model \<in> set (models s)"
  proof -
    from that(1) have "wf_world s" by (auto dest: reachable_inv simp: adapter_inv_def)
    then have "wf_world (onModelRemoved cfg model s)" by (rule wf_onModelRemoved)
    moreover from that(2) have "(mid model, uri model) \<in> set (model_ids (onModelRemoved cfg model s))"
      by (auto simp: model_ids_def)
    moreover have "listener (onModelRemoved cfg model s) (uri model) = None" by simp
    ultimately show ?thesis by (intro conjI no_pending_untracked)
  qed
  show ?thesis using a b
    by (auto simp: onModelRemoved_untracked onModelRemoved_tracked)
qed

section \<open>The claims on concrete states and on the event loop\<close>

text \<open>The definitions that a concrete run unfolds.\<close>

lemmas eval_defs = run_def construct_def dispose_def create_model_def dispose_model_def
  set_model_language_def change_content_def advance_def defaults_changed_def
  recomputeDiagostics_def worker_settled_def diagnostics_settled_def finish_chain_def
  then_fulfilled_def then_rejected_def publish_callback_def error_callback_def
  onModelAdd_def onModelRemoved_def doValidate_def setModelMarkers_def
  subscription_dispose_def clearTimeout_def setTimeout_def changeContent_callback_def
  timer_callback_def set_task_state_def getModel_def model_object_def Let_def
  lg_config_def empty_world_def newline_def

lemma tracked_world_eq:
  "tracked_world =
     \<lparr>models = [\<lparr>mid = 0, uri = ''a.lg'', modeId = ''botbuilderlg'', linesContent = [''x'']\<rparr>],
      next_mid = 1, markers = (\<lambda>k. []), now = 0, timers = [], next_timer = 0,
      contentListeners = [(0, 0)], uncaught = [], handles = (\<lambda>h. None), next_handle = 1,
      listener = [''a.lg'' \<mapsto> (0, 0)], registered = True,
      tasks = [\<lparr>resource = ''a.lg'', contents = ''x'', task_state = AwaitWorker\<rparr>],
      defaults = new_LanguageServiceDefaultsImpl\<rparr>"
  by (simp add: tracked_world_def eval_defs)

lemma awaiting_world_eq:
  "awaiting_world =
     \<lparr>models = [\<lparr>mid = 0, uri = ''a.lg'', modeId = ''botbuilderlg'', linesContent = [''x'']\<rparr>],
      next_mid = 1, markers = (\<lambda>k. []), now = 0, timers = [], next_timer = 0,
      contentListeners = [(0, 0)], uncaught = [], handles = (\<lambda>h. None), next_handle = 1,
      listener = [''a.lg'' \<mapsto> (0, 0)], registered = True,
      tasks = [\<lparr>resource = ''a.lg'', contents = ''x'', task_state = AwaitDiagnostics\<rparr>],
      defaults = new_LanguageServiceDefaultsImpl\<rparr>"
  by (simp add: awaiting_world_def tracked_world_eq worker_settled_def set_task_state_def
      getModel_def)

lemma relabelled_world_eq:
  "relabelled_world =
     \<lparr>models = [relabelled_model],
      next_mid = 1,
      markers = (\<lambda>k. [])((''a.lg'', ''botbuilderlg'') :=
        [\<lparr>severity = Error, startLineNumber = 1, startColumn = 1, endLineNumber = 1,
          endColumn = 2, message = ''bad''\<rparr>]),
      now = 0, timers = [], next_timer = 0,
      contentListeners = [], uncaught = [], handles = (\<lambda>h. None), next_handle = 1,
      listener = Map.empty, registered = True,
      tasks = [\<lparr>resource = ''a.lg'', contents = ''x'', task_state = Settled\<rparr>],
      defaults = new_LanguageServiceDefaultsImpl\<rparr>"
  by (simp add: relabelled_world_def relabelled_model_def tracked_world_eq example_diagnostic_def
      convertDiagnostics_def toSeverity_def typescript_DiagnosticCategory_def eval_defs)

lemma two_documents_world_eq:
  "two_documents_world =
     \<lparr>models = [\<lparr>mid = 0, uri = ''a.lg'', modeId = ''botbuilderlg'', linesContent = [''x'']\<rparr>,
                \<lparr>mid = 1, uri = ''b.lg'', modeId = ''botbuilderlg'', linesContent = [''y'']\<rparr>],
      next_mid = 2, markers = (\<lambda>k. []), now = 0, timers = [], next_timer = 0,
      contentListeners = [(0, 0), (1, 1)], uncaught = [], handles = (\<lambda>h. None), next_handle = 2,
      listener = [''a.lg'' \<mapsto> (0, 0), ''b.lg'' \<mapsto> (1, 1)], registered = True,
      tasks = [\<lparr>resource = ''a.lg'', contents = ''x'', task_state = AwaitWorker\<rparr>,
               \<lparr>resource = ''b.lg'', contents = ''y'', task_state = AwaitWorker\<rparr>],
      defaults = new_LanguageServiceDefaultsImpl\<rparr>"
  by (simp add: two_documents_world_def tracked_world_eq eval_defs)

lemma reachable_tracked_world: "reachable cfg' tracked_world" if "cfg' = lg_config"
  unfolding tracked_world_def that by (intro reachable_run reachable_init)

text \<open>
  Claim C4. When the promise of the worker handle or the promise of the diagnostics
  rejects, the rejection passes the \<^verbatim>\<open>then\<close>s that have no rejection handler and is
  swallowed by the last one: the markers are unchanged, nothing reaches the event loop
  uncaught, and a pass that was waiting for that promise is settled with no other change
  of the state.
\<close>

theorem rejection_swallowed:
  "markers (step cfg (WorkerSettled k (Rejected e)) s) = markers s
   \<and> uncaught (step cfg (WorkerSettled k (Rejected e)) s) = uncaught s
   \<and> markers (step cfg (DiagnosticsSettled k (Rejected e)) s) = markers s
   \<and> uncaught (step cfg (DiagnosticsSettled k (Rejected e)) s) = uncaught s
   \<and> (k < length (tasks s) \<and> task_state (tasks s ! k) = AwaitWorker \<longrightarrow>
        step cfg (WorkerSettled k (Rejected e)) s = set_task_state k Settled s)
   \<and> (k < length (tasks s) \<and> task_state (tasks s ! k) = AwaitDiagnostics \<longrightarrow>
        step cfg (DiagnosticsSettled k (Rejected e)) s = set_task_state k Settled s)"
  by (simp add: worker_settled_def diagnostics_settled_def)

text \<open>
  The worker handle rejects for the first pass of \<open>a.lg\<close>, and the diagnostics reject
  for the pass that waits for them.
\<close>

theorem rejection_swallowed_witness:
  "(0 < length (tasks tracked_world) \<and> task_state (tasks tracked_world ! 0) = AwaitWorker)
   \<and> step lg_config (WorkerSettled 0 (Rejected ''worker failed'')) tracked_world
       = set_task_state 0 Settled tracked_world
   \<and> (0 < length (tasks awaiting_world) \<and> task_state (tasks awaiting_world ! 0) = AwaitDiagnostics)
   \<and> step lg_config (DiagnosticsSettled 0 (Rejected ''worker failed'')) awaiting_world
       = set_task_state 0 Settled awaiting_world"
proof -
  have a: "0 < length (tasks tracked_world) \<and> task_state (tasks tracked_world ! 0) = AwaitWorker"
    by (simp add: tracked_world_eq)
  have b: "0 < length (tasks awaiting_world) \<and> task_state (tasks awaiting_world ! 0) = AwaitDiagnostics"
    by (simp add: awaiting_world_eq)
  from rejection_swallowed [of lg_config 0 "''worker failed''" tracked_world] a
    rejection_swallowed [of lg_config 0 "''worker failed''" awaiting_world] b
  show ?thesis by blast
qed

lemma disposed_early_world_eq:
  "disposed_early_world =
     \<lparr>models = [], next_mid = 1, markers = (\<lambda>k. []), now = 0, timers = [], next_timer = 0,
      contentListeners = [], uncaught = [], handles = (\<lambda>h. None), next_handle = 1,
      listener = Map.empty, registered = True,
      tasks = [\<lparr>resource = ''a.lg'', contents = ''x'', task_state = AwaitWorker\<rparr>],
      defaults = new_LanguageServiceDefaultsImpl\<rparr>"
  by (simp add: disposed_early_world_def tracked_world_eq eval_defs fun_eq_iff)

lemma disposed_late_world_eq:
  "disposed_late_world =
     \<lparr>models = [], next_mid = 1, markers = (\<lambda>k. []), now = 0, timers = [], next_timer = 0,
      contentListeners = [], uncaught = [], handles = (\<lambda>h. None), next_handle = 1,
      listener = Map.empty, registered = True,
      tasks = [\<lparr>resource = ''a.lg'', contents = ''x'', task_state = AwaitDiagnostics\<rparr>],
      defaults = new_LanguageServiceDefaultsImpl\<rparr>"
  by (simp add: disposed_late_world_def awaiting_world_eq eval_defs fun_eq_iff)

text \<open>
  The document \<open>a.lg\<close> is disposed while its first pass waits for the worker handle, and
  while that pass waits for the diagnostics; and it stays disposed through a timer tick
  and an edit event for its uri.
\<close>

theorem disposed_document_not_published_witness:
  "(0 < length (tasks disposed_early_world)
      \<and> getModel (resource (tasks disposed_early_world ! 0)) disposed_early_world = None
      \<and> task_state (tasks disposed_early_world ! 0) = AwaitWorker)
   \<and> step lg_config (WorkerSettled 0 (Fulfilled ())) disposed_early_world
        = set_task_state 0 Settled disposed_early_world
   \<and> (0 < length (tasks disposed_late_world)
      \<and> getModel (resource (tasks disposed_late_world ! 0)) disposed_late_world = None
      \<and> task_state (tasks disposed_late_world ! 0) = AwaitDiagnostics)
   \<and> step lg_config (DiagnosticsSettled 0 (Fulfilled [example_diagnostic])) disposed_late_world
        = set_task_state 0 Settled disposed_late_world
   \<and> markers (step lg_config (DiagnosticsSettled 0 (Fulfilled [example_diagnostic]))
        disposed_late_world) = markers disposed_late_world
   \<and> (reachable lg_config tracked_world
        \<and> list_all (\<lambda>e. \<not> creates ''a.lg'' e) [Advance 10, ChangeContent ''a.lg'' [''z'']])
   \<and> getModel ''a.lg''
        (run lg_config (DisposeModel ''a.lg'' # [Advance 10, ChangeContent ''a.lg'' [''z'']])
           tracked_world) = None"
proof -
  have a: "0 < length (tasks disposed_early_world)
      \<and> getModel (resource (tasks disposed_early_world ! 0)) disposed_early_world = None
      \<and> task_state (tasks disposed_early_world ! 0) = AwaitWorker"
    by (simp add: disposed_early_world_eq getModel_def)
  have b: "0 < length (tasks disposed_late_world)
      \<and> getModel (resource (tasks disposed_late_world ! 0)) disposed_late_world = None
      \<and> task_state (tasks disposed_late_world ! 0) = AwaitDiagnostics"
    by (simp add: disposed_late_world_eq getModel_def)
  have c: "reachable lg_config tracked_world
        \<and> (\<forall>e \<in> set [Advance 10, ChangeContent ''a.lg'' [''z'']]. \<not> creates ''a.lg'' e)"
    by (simp add: reachable_tracked_world)
  have d: "list_all (\<lambda>e. \<not> creates ''a.lg'' e) [Advance 10, ChangeContent ''a.lg'' [''z'']]"
    by simp
  from disposed_document_not_published
         [where k = 0 and s = disposed_early_world and cfg = lg_config and w = "()"
            and ds = "[example_diagnostic]" and es = "[Advance 10, ChangeContent ''a.lg'' [''z'']]"
            and u = "''a.lg''"] a
    disposed_document_not_published
         [where k = 0 and s = disposed_late_world and cfg = lg_config and w = "()"
            and ds = "[example_diagnostic]" and es = "[Advance 10, ChangeContent ''a.lg'' [''z'']]"
            and u = "''a.lg''"] b
    disposed_document_not_published
         [where k = 0 and s = tracked_world and cfg = lg_config and w = "()"
            and ds = "[example_diagnostic]" and es = "[Advance 10, ChangeContent ''a.lg'' [''z'']]"
            and u = "''a.lg''"] c d
  show ?thesis by blast
qed

lemma reachable_relabelled_world: "reachable lg_config relabelled_world"
  unfolding relabelled_world_def by (intro reachable_run reachable_tracked_world) simp

text \<open>
  Claim C5, as stated: Untrack of a document that is not tracked would change nothing,
  the document's markers included. \<^verbatim>\<open>onModelRemoved\<close> clears the markers before it looks
  for the subscription record. In a reachable state the open document \<open>a.lg\<close> is not
  tracked and has a marker under the adapter's owner tag (its language was changed while
  a validation pass was in flight), and Untrack removes that marker.
\<close>

theorem untrack_untracked_counterexample:
  "reachable lg_config relabelled_world
   \<and> relabelled_model \<in> set (models relabelled_world)
   \<and> \<not> tracked (uri relabelled_model) relabelled_world
   \<and> onModelRemoved lg_config relabelled_model relabelled_world \<noteq> relabelled_world
   \<and> markers (onModelRemoved lg_config relabelled_model relabelled_world) (''a.lg'', ''botbuilderlg'')
       \<noteq> markers relabelled_world (''a.lg'', ''botbuilderlg'')"
proof -
  have m: "relabelled_model \<in> set (models relabelled_world)"
    by (simp add: relabelled_world_eq)
  have l: "\<not> tracked (uri relabelled_model) relabelled_world"
    by (simp add: relabelled_world_eq tracked_def)
  have k: "markers (onModelRemoved lg_config relabelled_model relabelled_world) (''a.lg'', ''botbuilderlg'')
       \<noteq> markers relabelled_world (''a.lg'', ''botbuilderlg'')"
    by (simp add: relabelled_world_eq relabelled_model_def onModelRemoved_def setModelMarkers_def
        lg_config_def)
  then have "onModelRemoved lg_config relabelled_model relabelled_world \<noteq> relabelled_world"
    by auto
  with reachable_relabelled_world m l k show ?thesis by simp
qed

text \<open>Untrack of the tracked document \<open>a.lg\<close>, and of the same document when it is not tracked.\<close>

theorem untrack_effect_witness:
  "listener tracked_world (uri tracked_model) = Some (0, 0)
   \<and> (reachable lg_config tracked_world \<and> tracked_model \<in> set (models tracked_world))
   \<and> contentListeners (onModelRemoved lg_config tracked_model tracked_world)
       = filter (\<lambda>l. l \<noteq> (0, 0)) (contentListeners tracked_world)
   \<and> pending_timers (mid tracked_model) (onModelRemoved lg_config tracked_model tracked_world) = []
   \<and> listener (onModelRemoved lg_config tracked_model tracked_world) (uri tracked_model) = None
   \<and> listener relabelled_world (uri relabelled_model) = None
   \<and> onModelRemoved lg_config relabelled_model relabelled_world
       = relabelled_world\<lparr>markers :=
           (markers relabelled_world)((uri relabelled_model, selector lg_config) := [])\<rparr>"
proof -
  have a: "listener tracked_world (uri tracked_model) = Some (0, 0)"
    by (simp add: tracked_world_eq tracked_model_def)
  have b: "reachable lg_config tracked_world \<and> tracked_model \<in> set (models tracked_world)"
    by (simp add: reachable_tracked_world) (simp add: tracked_world_eq tracked_model_def)
  have c: "listener relabelled_world (uri relabelled_model) = None"
    by (simp add: relabelled_world_eq)
  from untrack_effect [of lg_config tracked_model tracked_world] a b
    untrack_effect [of lg_config relabelled_model relabelled_world] c
  show ?thesis by simp
qed

lemma markers_onModelRemoved [simp]:
  "markers (onModelRemoved cfg model s) = (markers s)((uri model, selector cfg) := [])"
  by (cases "listener s (uri model)") (simp_all add: onModelRemoved_untracked onModelRemoved_tracked)

lemma tasks_onModelAdd:
  "tasks (onModelAdd cfg m s) =
     tasks s @ (if modeId m = selector cfg then [new_task (uri m) (linesContent m)] else [])"
  by (simp add: onModelAdd_other onModelAdd_tracked new_task_def)

lemma tasks_fold_recompute:
  "tasks (fold (\<lambda>model s'. onModelAdd cfg model (onModelRemoved cfg model s')) ms s) =
     tasks s @ map (\<lambda>m. new_task (uri m) (linesContent m))
                   (filter (\<lambda>m. modeId m = selector cfg) ms)"
  by (induction ms arbitrary: s) (simp_all add: tasks_onModelAdd)

lemma markers_fold_recompute:
  "markers (fold (\<lambda>model s'. onModelAdd cfg model (onModelRemoved cfg model s')) ms s) k =
     (if k \<in> (\<lambda>m. (uri m, selector cfg)) ` set ms then [] else markers s k)"
  by (induction ms arbitrary: s) auto

lemma listener_fold_recompute_other:
  "u \<notin> uri ` set ms \<Longrightarrow>
   listener (fold (\<lambda>model s'. onModelAdd cfg model (onModelRemoved cfg model s')) ms s) u
     = listener s u"
  by (induction ms arbitrary: s) (auto simp: listener_onModelAdd)

lemma tracked_fold_recompute:
  "distinct (map uri ms) \<Longrightarrow> m \<in> set ms \<Longrightarrow>
   tracked (uri m) (fold (\<lambda>model s'. onModelAdd cfg model (onModelRemoved cfg model s')) ms s)
     \<longleftrightarrow> modeId m = selector cfg"
proof (induction ms arbitrary: s)
  case Nil
  then show ?case by simp
next
  case (Cons a ms)
  show ?case
  proof (cases "m = a")
    case True
    with Cons.prems have "uri m \<notin> uri ` set ms" by simp
    from listener_fold_recompute_other [OF this] True show ?thesis
      by (simp add: tracked_def listener_onModelAdd)
  next
    case False
    with Cons.prems have "distinct (map uri ms)" "m \<in> set ms" by simp_all
    from Cons.IH [OF this] show ?thesis by simp
  qed
qed

text \<open>
  Claim C9. When the change event of the defaults fires while the adapter is
  constructed, the adapter runs Untrack and then Track on every open model in turn.
  This starts exactly one new validation pass for every open document of the tracked
  language, with its current content, and clears the markers of every open document;
  in a reachable state, afterwards exactly the open documents of the tracked language
  are tracked.
\<close>

theorem defaults_change_revalidates:
  "registered s \<longrightarrow>
     step cfg DefaultsChanged s =
       fold (\<lambda>model s'. onModelAdd cfg model (onModelRemoved cfg model s')) (models s) s
     \<and> tasks (step cfg DefaultsChanged s) =
         tasks s @ map (\<lambda>m. new_task (uri m) (linesContent m))
                       (filter (\<lambda>m. modeId m = selector cfg) (models s))
     \<and> (\<forall>m \<in> set (models s). markers (step cfg DefaultsChanged s) (uri m, selector cfg) = [])
     \<and> (reachable cfg s \<longrightarrow>
          (\<forall>m \<in> set (models s).
             tracked (uri m) (step cfg DefaultsChanged s) \<longleftrightarrow> modeId m = selector cfg))"
proof (intro impI conjI ballI)
  assume r: "registered s"
  then show "step cfg DefaultsChanged s =
       fold (\<lambda>model s'. onModelAdd cfg model (onModelRemoved cfg model s')) (models s) s"
    by (simp add: defaults_changed_def recomputeDiagostics_def)
  from r show "tasks (step cfg DefaultsChanged s) =
         tasks s @ map (\<lambda>m. new_task (uri m) (linesContent m))
                       (filter (\<lambda>m. modeId m = selector cfg) (models s))"
    by (simp add: defaults_changed_def recomputeDiagostics_def tasks_fold_recompute)
  fix m assume m: "m \<in> set (models s)"
  with r show "markers (step cfg DefaultsChanged s) (uri m, selector cfg) = []"
    by (simp add: defaults_changed_def recomputeDiagostics_def markers_fold_recompute)
  assume "reachable cfg s"
  then have "distinct (map uri (models s))"
    by (auto dest!: reachable_inv simp: adapter_inv_def wf_world_def wf_models_distinct_uri)
  from tracked_fold_recompute [OF this m] r
  show "tracked (uri m) (step cfg DefaultsChanged s) \<longleftrightarrow> modeId m = selector cfg"
    by (simp add: defaults_changed_def recomputeDiagostics_def)
qed

text \<open>With two documents of the tracked language open, the event starts two new passes.\<close>

theorem defaults_change_revalidates_witness:
  "registered two_documents_world \<and> reachable lg_config two_documents_world
   \<and> tasks (step lg_config DefaultsChanged two_documents_world) =
       tasks two_documents_world @ [new_task ''a.lg'' [''x''], new_task ''b.lg'' [''y'']]"
proof -
  have a: "registered two_documents_world" by (simp add: two_documents_world_eq)
  have b: "reachable lg_config two_documents_world"
    unfolding two_documents_world_def by (intro reachable_step reachable_tracked_world) simp
  have c: "map (\<lambda>m. new_task (uri m) (linesContent m))
        (filter (\<lambda>m. modeId m = selector lg_config) (models two_documents_world))
      = [new_task ''a.lg'' [''x''], new_task ''b.lg'' [''y'']]"
    by (simp add: two_documents_world_eq lg_config_def)
  from defaults_change_revalidates [of two_documents_world lg_config] a
  have "tasks (step lg_config DefaultsChanged two_documents_world) =
      tasks two_documents_world @ map (\<lambda>m. new_task (uri m) (linesContent m))
        (filter (\<lambda>m. modeId m = selector lg_config) (models two_documents_world))"
    by blast
  with a b c show ?thesis by (simp only: simp_thms)
qed

lemma edit_rearms:
  assumes wf: "wf_world s" and tr: "tracked u s"
  obtains m where "getModel u s = Some m"
    "pending_timers (mid m) (change_content u ls s) =
       [\<lparr>timer_id = next_timer s, due = now s + 500, timer_model = mid m\<rparr>]"
proof -
  from wf tr obtain m h where m: "getModel u s = Some m" "listener s u = Some (mid m, h)"
    "m \<in> set (models s)" "uri m = u"
    by (rule tracked_model)
  let ?m' = "m\<lparr>linesContent := ls\<rparr>"
  let ?s1 = "s\<lparr>models := map (\<lambda>x. if mid x = mid m then ?m' else x) (models s)\<rparr>"
  have eq: "change_content u ls s = changeContent_callback (mid m, h) ?s1"
    using wf m(1,2) by (rule change_content_tracked)
  have wf1: "wf_world ?s1" using wf m(3) by (intro wf_world_replace) simp_all
  have g1: "getModel u ?s1 = Some ?m'"
    using wf m(1) by (intro getModel_replace) (simp_all add: wf_world_def)
  have "pending_timers (mid ?m') (changeContent_callback (mid ?m', h) ?s1) =
      [\<lparr>timer_id = next_timer ?s1, due = now ?s1 + 500, timer_model = mid ?m'\<rparr>]"
    using wf1 g1 by (rule pending_changeContent_callback) (simp add: m)
  then have "pending_timers (mid m) (change_content u ls s) =
      [\<lparr>timer_id = next_timer s, due = now s + 500, timer_model = mid m\<rparr>]"
    by (simp add: eq)
  with m(1) that show ?thesis by blast
qed

text \<open>
  Claim C3. In every reachable state a model has at most one pending debounce timer. An
  edit of a tracked document cancels the pending timer of the document and leaves
  exactly one, new, timer for it, due 500 ms later. So for a burst of edits of a
  tracked document, each less than 500 ms after the previous one, followed by 500 ms or
  more without an edit, the validation passes started in the meantime contain exactly
  one pass for the document, with the content of the last edit.
\<close>

theorem debounce_one_validation:
  "reachable cfg s \<longrightarrow>
     (\<forall>i. length (pending_timers i s) \<le> 1)
     \<and> (tracked u s \<longrightarrow>
          (\<exists>m. getModel u s = Some m
             \<and> pending_timers (mid m) (step cfg (ChangeContent u ls) s) =
                 [\<lparr>timer_id = next_timer s, due = now s + 500, timer_model = mid m\<rparr>]
             \<and> set (pending_timers (mid m) s) \<inter> set (timers (step cfg (ChangeContent u ls) s)) = {})
          \<and> ((\<forall>p \<in> set rest. fst p < 500) \<and> 500 \<le> dlast \<longrightarrow>
                take (length (tasks s))
                  (tasks (run cfg (ChangeContent u ls # burst u rest @ [Advance dlast]) s)) = tasks s
                \<and> filter (\<lambda>k. resource k = u)
                    (drop (length (tasks s))
                      (tasks (run cfg (ChangeContent u ls # burst u rest @ [Advance dlast]) s)))
                  = [new_task u (last (ls # map snd rest))]))"
proof (intro impI conjI allI)
  assume r: "reachable cfg s"
  then have inv: "adapter_inv s" by (rule reachable_inv)
  then have wf: "wf_world s" by (simp add: adapter_inv_def)
  show "length (pending_timers i s) \<le> 1" for i using wf by (rule pending_at_most_one)
  assume tr: "tracked u s"
  from wf tr obtain m where m: "getModel u s = Some m"
    "pending_timers (mid m) (change_content u ls s) =
       [\<lparr>timer_id = next_timer s, due = now s + 500, timer_model = mid m\<rparr>]"
    by (rule edit_rearms)
  have "set (pending_timers (mid m) s) \<inter> set (timers (change_content u ls s)) = {}"
  proof (rule ccontr)
    assume "\<not> ?thesis"
    then obtain t where t: "t \<in> set (pending_timers (mid m) s)" "t \<in> set (timers (change_content u ls s))"
      by auto
    then have "t \<in> set (pending_timers (mid m) (change_content u ls s))"
      by (simp add: pending_timers_def)
    with m(2) have "timer_id t = next_timer s" by simp
    moreover from t(1) wf have "timer_id t < next_timer s"
      by (simp add: pending_timers_def wf_world_def wf_timers_def)
    ultimately show False by simp
  qed
  with m show "\<exists>m. getModel u s = Some m
             \<and> pending_timers (mid m) (step cfg (ChangeContent u ls) s) =
                 [\<lparr>timer_id = next_timer s, due = now s + 500, timer_model = mid m\<rparr>]
             \<and> set (pending_timers (mid m) s) \<inter> set (timers (step cfg (ChangeContent u ls) s)) = {}"
    by simp
  assume b: "(\<forall>p \<in> set rest. fst p < 500) \<and> 500 \<le> dlast"
  let ?s1 = "change_content u ls s"
  have a: "armed u ls (now ?s1 + 500) ?s1" using armed_after_edit [OF inv tr, of ls] by simp
  from b have "\<forall>p \<in> set rest. fst p < 500" "500 \<le> dlast" by simp_all
  from burst_armed [OF a this, of cfg]
  have x: "take (length (tasks ?s1)) (tasks (run cfg (burst u rest @ [Advance dlast]) ?s1)) = tasks ?s1"
    "filter (\<lambda>k. resource k = u)
       (drop (length (tasks ?s1)) (tasks (run cfg (burst u rest @ [Advance dlast]) ?s1)))
     = [new_task u (last (ls # map snd rest))]" by simp_all
  have e: "run cfg (ChangeContent u ls # burst u rest @ [Advance dlast]) s
      = run cfg (burst u rest @ [Advance dlast]) ?s1" by (simp add: run_def)
  have t: "tasks ?s1 = tasks s" by simp
  from x show "take (length (tasks s))
      (tasks (run cfg (ChangeContent u ls # burst u rest @ [Advance dlast]) s)) = tasks s"
    unfolding e t by simp
  from x show "filter (\<lambda>k. resource k = u)
      (drop (length (tasks s))
        (tasks (run cfg (ChangeContent u ls # burst u rest @ [Advance dlast]) s)))
      = [new_task u (last (ls # map snd rest))]"
    unfolding e t by simp
qed

text \<open>Three edits of \<open>a.lg\<close>, 100 ms and 300 ms apart, and then 500 ms of quiet.\<close>

theorem debounce_one_validation_witness:
  "reachable lg_config tracked_world \<and> tracked ''a.lg'' tracked_world
   \<and> (list_all (\<lambda>p. fst p < (500::nat)) [(100, [''z'']), (300, [''z'', ''w''])]
        \<and> (500::nat) \<le> 500)
   \<and> filter (\<lambda>k. resource k = ''a.lg'')
        (drop (length (tasks tracked_world))
          (tasks (run lg_config
             (ChangeContent ''a.lg'' [''y'']
                # burst ''a.lg'' [(100, [''z'']), (300, [''z'', ''w''])] @ [Advance 500])
             tracked_world)))
      = [new_task ''a.lg'' [''z'', ''w'']]"
proof -
  have a: "reachable lg_config tracked_world" by (simp add: reachable_tracked_world)
  have b: "tracked ''a.lg'' tracked_world" by (simp add: tracked_world_eq tracked_def)
  have c: "(\<forall>p \<in> set [(100, [''z'']), (300, [''z'', ''w''])]. fst p < (500::nat)) \<and> (500::nat) \<le> 500"
    by simp
  note t = debounce_one_validation [where cfg = lg_config and s = tracked_world
      and u = "''a.lg''" and ls = "[''y'']" and rest = "[(100, [''z'']), (300, [''z'', ''w''])]"
      and dlast = 500]
  note t1 = t [THEN mp, OF a, THEN conjunct2, THEN mp, OF b, THEN conjunct2, THEN mp, OF c,
      THEN conjunct2]
  from t1 a b c show ?thesis by simp
qed

end
